theory Spec2Isabelle
  imports Complex_Main "HOL-Library.Multiset"
begin

section \<open>Link extraction (\<open>EnhancedLinkValidator.extract_links\<close>)\<close>

text \<open>
  A Python string is modelled as a \<^typ>\<open>string\<close> whose characters are the code points
  0..255. The character classes of the two patterns are written out for that range:
  \<open>\w\<close> is Python's Unicode word test (alphanumeric or underscore), \<open>\d\<close> the decimal
  digits, and \<open>re.IGNORECASE\<close> makes the literals \<open>http\<close>, \<open>s\<close> and \<open>www\<close> match either
  case.
\<close>

definition code :: "char \<Rightarrow> nat" where
  "code c = of_char c"

definition is_digit :: "char \<Rightarrow> bool" where
  "is_digit c = (48 \<le> code c \<and> code c \<le> 57)"

definition is_word :: "char \<Rightarrow> bool" where
  "is_word c = (let n = code c in
     (48 \<le> n \<and> n \<le> 57) \<or> (65 \<le> n \<and> n \<le> 90) \<or> n = 95 \<or> (97 \<le> n \<and> n \<le> 122) \<or>
     n = 170 \<or> n = 178 \<or> n = 179 \<or> n = 181 \<or> n = 185 \<or> n = 186 \<or>
     (188 \<le> n \<and> n \<le> 190) \<or> (192 \<le> n \<and> n \<le> 214) \<or> (216 \<le> n \<and> n \<le> 246) \<or>
     (248 \<le> n \<and> n \<le> 255))"

text \<open>The class \<open>[\da-fA-F]\<close>.\<close>

definition is_hex :: "char \<Rightarrow> bool" where
  "is_hex c = (let n = code c in
     is_digit c \<or> (97 \<le> n \<and> n \<le> 102) \<or> (65 \<le> n \<and> n \<le> 70))"

text \<open>The class \<open>[-\w.]\<close> of both patterns.\<close>

definition is_host_char :: "char \<Rightarrow> bool" where
  "is_host_char c = (c = CHR ''-'' \<or> is_word c \<or> c = CHR ''.'')"

text \<open>The class \<open>[-\w%!./?=&+#]\<close> of both patterns.\<close>

definition is_path_char :: "char \<Rightarrow> bool" where
  "is_path_char c = (c = CHR ''-'' \<or> is_word c \<or> c \<in> set ''%!./?=&+#'')"

text \<open>
  A literal pattern character against a text character under \<open>re.IGNORECASE\<close>: the
  pattern's letters are lower-case ASCII, and the text's upper-case letter is 32 below.
\<close>

definition ci_eq :: "char \<Rightarrow> char \<Rightarrow> bool" where
  "ci_eq p c = (c = p \<or> (97 \<le> code p \<and> code p \<le> 122 \<and> code c + 32 = code p))"

text \<open>Matching a literal at the start of the text; the result is the text after it.\<close>

fun match_lit :: "string \<Rightarrow> string \<Rightarrow> string option" where
  "match_lit [] s = Some s"
| "match_lit (p # ps) [] = None"
| "match_lit (p # ps) (c # cs) = (if ci_eq p c then match_lit ps cs else None)"

text \<open>
  \<open>(?:[-\w.]|(?:%[\da-fA-F]{2}))+\<close>: the number of characters the greedy repetition
  consumes. The two alternatives start with different characters, and what follows the
  repetition can match the empty string, so the engine never gives a character back.
\<close>

fun host_run :: "string \<Rightarrow> nat" where
  "host_run [] = 0"
| "host_run (c # cs) =
     (if is_host_char c then Suc (host_run cs)
      else if c = CHR ''%'' then
        (case cs of
           h1 # h2 # rest \<Rightarrow> if is_hex h1 \<and> is_hex h2 then 3 + host_run rest else 0
         | _ \<Rightarrow> 0)
      else 0)"

text \<open>
  \<open>(?:/[-\w%!./?=&+#]*)*\<close>: the class contains \<open>/\<close>, so the first iteration takes the
  whole run of class characters after the first \<open>/\<close> and no second iteration starts.
\<close>

definition path_run :: "string \<Rightarrow> nat" where
  "path_run s = (case s of
      [] \<Rightarrow> 0
    | c # cs \<Rightarrow> if c = CHR ''/'' then Suc (length (takeWhile is_path_char cs)) else 0)"

text \<open>What follows \<open>https?\<close> in the first pattern: \<open>://\<close>, the host, the path.\<close>

definition match_after_scheme :: "string \<Rightarrow> nat option" where
  "match_after_scheme s = (case match_lit ''://'' s of
      None \<Rightarrow> None
    | Some h \<Rightarrow> (let n = host_run h in
        if n = 0 then None else Some (3 + n + path_run (drop n h))))"

text \<open>
  The first pattern at the start of the text: the length of the match. The optional \<open>s\<close>
  is greedy: the engine takes it when it is there and retries without it when the
  rest fails.
\<close>

definition match_http :: "string \<Rightarrow> nat option" where
  "match_http s = (case match_lit ''http'' s of
      None \<Rightarrow> None
    | Some r \<Rightarrow>
        (case (case r of
                 [] \<Rightarrow> None
               | c # cs \<Rightarrow> if ci_eq CHR ''s'' c then map_option Suc (match_after_scheme cs)
                           else None) of
           Some n \<Rightarrow> Some (4 + n)
         | None \<Rightarrow> map_option (\<lambda>n. 4 + n) (match_after_scheme r)))"

text \<open>The second pattern, \<open>www\.(?:[-\w.])+(?:/[-\w%!./?=&+#]*)*\<close>.\<close>

definition match_www :: "string \<Rightarrow> nat option" where
  "match_www s = (case match_lit ''www.'' s of
      None \<Rightarrow> None
    | Some h \<Rightarrow> (let n = length (takeWhile is_host_char h) in
        if n = 0 then None else Some (4 + n + path_run (drop n h))))"

text \<open>
  \<open>re.findall\<close> for a pattern without groups: scan from the left, take the match at the
  first position that has one, go on after it (one character further after an empty
  match, so the scan always advances).
\<close>

function findall :: "(string \<Rightarrow> nat option) \<Rightarrow> string \<Rightarrow> string list" where
  "findall m [] = []"
| "findall m (c # cs) = (case m (c # cs) of
      None \<Rightarrow> findall m cs
    | Some n \<Rightarrow> take n (c # cs) # findall m (drop (max 1 n) (c # cs)))"
  by pat_completeness auto
termination
  by (relation "measure (\<lambda>(m, s). length s)") auto

text \<open>\<open>link.startswith(p)\<close>, case-sensitive.\<close>

definition startswith :: "string \<Rightarrow> string \<Rightarrow> bool" where
  "startswith link p = (take (length p) link = p)"

definition trailing_punctuation :: "string" where
  "trailing_punctuation = [CHR ''.'', CHR '','', CHR '':'', CHR '';'', CHR ''!'', CHR ''?'',
     CHR '')'', CHR '']'', CHR ''}'', CHR ''>'', CHR 0x22, CHR 0x27]"

text \<open>\<open>while link and link[-1] in '.,:;!?)]}>"\'': link = link[:-1]\<close>\<close>

function strip_trailing :: "string \<Rightarrow> string" where
  "strip_trailing link =
     (if link \<noteq> [] \<and> last link \<in> set trailing_punctuation
      then strip_trailing (butlast link) else link)"
  by pat_completeness auto
termination
  by (relation "measure length") auto

text \<open>The second loop of \<open>extract_links\<close>, over \<open>all_links\<close>.\<close>

fun clean_links :: "string list \<Rightarrow> string list" where
  "clean_links [] = []"
| "clean_links (link # rest) =
     (let link1 = (if startswith link ''www.'' then ''https://'' @ link else link);
          link2 = strip_trailing link1
      in if link2 \<noteq> [] \<and> length link2 > 10 \<and> CHR ''.'' \<in> set link2
         then link2 # clean_links rest else clean_links rest)"

text \<open>The third loop, with its \<open>seen\<close> set.\<close>

fun unique_links :: "string set \<Rightarrow> string list \<Rightarrow> string list" where
  "unique_links seen [] = []"
| "unique_links seen (link # rest) =
     (if link \<notin> seen then link # unique_links (insert link seen) rest
      else unique_links seen rest)"

definition all_links :: "string \<Rightarrow> string list" where
  "all_links text = findall match_http text @ findall match_www text"

definition extract_links :: "string \<Rightarrow> string list" where
  "extract_links text = unique_links {} (clean_links (all_links text))"


text \<open>
  The order the claims compare with: a position in the list of cleaned candidates
  (\<open>first_index\<close>), and the candidates of both patterns taken together by their
  offset in the text (\<open>extract_links_first_seen\<close>, which follows the specification's
  words "first-seen order" and is not part of the program).
\<close>

definition first_index :: "'a list \<Rightarrow> 'a \<Rightarrow> nat" where
  "first_index xs x = length (takeWhile (\<lambda>y. y \<noteq> x) xs)"

function occurrences :: "(string \<Rightarrow> nat option) \<Rightarrow> nat \<Rightarrow> string \<Rightarrow> (nat \<times> string) list" where
  "occurrences m off [] = []"
| "occurrences m off (c # cs) = (case m (c # cs) of
      None \<Rightarrow> occurrences m (Suc off) cs
    | Some n \<Rightarrow> (off, take n (c # cs))
        # occurrences m (off + max 1 n) (drop (max 1 n) (c # cs)))"
  by pat_completeness auto
termination
  by (relation "measure (\<lambda>(m, off, s). length s)") auto

fun merge_by_offset ::
  "(nat \<times> string) list \<Rightarrow> (nat \<times> string) list \<Rightarrow> (nat \<times> string) list" where
  "merge_by_offset [] ys = ys"
| "merge_by_offset xs [] = xs"
| "merge_by_offset (x # xs) (y # ys) =
     (if fst x \<le> fst y then x # merge_by_offset xs (y # ys)
      else y # merge_by_offset (x # xs) ys)"

definition extract_links_first_seen :: "string \<Rightarrow> string list" where
  "extract_links_first_seen text = unique_links {} (clean_links (map snd
     (merge_by_offset (occurrences match_http 0 text) (occurrences match_www 0 text))))"

text \<open>\<open>sep.join(links)\<close>: the text formed from a list of links.\<close>

fun join_links :: "string \<Rightarrow> string list \<Rightarrow> string" where
  "join_links sep [] = []"
| "join_links sep [l] = l"
| "join_links sep (l # ls) = l @ sep @ join_links sep ls"

section \<open>The link prober (\<open>validate_single_link_attempt\<close>)\<close>

datatype link_status = Valid | Warning | Invalid

datatype http_method = HEAD | GET

text \<open>The dictionary every probe returns; \<open>method_used\<close> is absent on the failure paths.\<close>

record link_result =
  url :: string
  status :: link_status
  status_code :: "int option"
  error :: "string option"
  response_time_ms :: int
  final_url :: string
  redirects :: nat
  method_used :: "http_method option"
  attempt :: int

text \<open>What the program reads of a \<open>requests.Response\<close> and of \<open>urlparse\<close>'s result.\<close>

record http_response =
  resp_status_code :: int
  resp_url :: string
  resp_history :: nat

record parsed_url =
  scheme :: string
  netloc :: string

text \<open>
  Everything outside the program that one worker's probes of one URL depend on.
  \<open>urlparse\<close> and the two requests either return or raise (\<open>Inl\<close> carries \<open>str(e)\<close>);
  \<open>elapsed_ms url attempt k\<close> is the reading \<open>int((time.time() - start_time) * 1000)\<close>
  of that attempt once \<open>k\<close> requests have come back; \<open>worker_fault\<close> is an exception
  that escapes \<open>validate_single_link\<close> in the worker thread, which the pool guards
  against with \<open>except Exception\<close> around \<open>future.result()\<close>.
\<close>

record world =
  urlparse :: "string \<Rightarrow> string + parsed_url"
  request :: "http_method \<Rightarrow> string \<Rightarrow> int \<Rightarrow> string + http_response"
  elapsed_ms :: "string \<Rightarrow> int \<Rightarrow> nat \<Rightarrow> int"
  worker_fault :: "string option"

text \<open>\<open>str(n)\<close> for an integer, as the f-strings of the error texts need it.\<close>

function str_nat :: "nat \<Rightarrow> string" where
  "str_nat n = (if n < 10 then [char_of (48 + n)]
                else str_nat (n div 10) @ [char_of (48 + n mod 10)])"
  by pat_completeness auto
termination
  by (relation "measure id") auto

definition str_int :: "int \<Rightarrow> string" where
  "str_int i = (if i < 0 then CHR ''-'' # str_nat (nat (- i)) else str_nat (nat i))"

text \<open>
  The \<open>if\<close>/\<open>elif\<close> chain on \<open>response.status_code\<close>, in the source's order. \<open>None\<close> is
  the \<open>continue\<close> of the HEAD tier: the response is dropped and the next method is tried.
\<close>

definition classify :: "http_method \<Rightarrow> int \<Rightarrow> (link_status \<times> string option) option" where
  "classify method_name c =
     (if c < 400 then Some (Valid, None)
      else if c = 404 then
        (if method_name = HEAD then None else Some (Invalid, Some ''Page not found (404)''))
      else if c = 403 then
        (if method_name = HEAD then None
         else Some (Warning, Some ''Access forbidden (403) - may be bot protection''))
      else if c = 429 then Some (Warning, Some ''Rate limited (429) - try again later'')
      else if c \<ge> 500 then
        Some (Warning, Some (''Server error ('' @ str_int c @ '') - temporary issue''))
      else Some (Invalid, Some (''HTTP error ('' @ str_int c @ '')'')))"

definition invalid_format :: "string \<Rightarrow> int \<Rightarrow> link_result" where
  "invalid_format u a = \<lparr>url = u, status = Invalid, status_code = None,
     error = Some ''Invalid URL format'', response_time_ms = 0, final_url = u,
     redirects = 0, method_used = None, attempt = a\<rparr>"

definition failure :: "string \<Rightarrow> string \<Rightarrow> int \<Rightarrow> int \<Rightarrow> link_result" where
  "failure u msg t a = \<lparr>url = u, status = Invalid, status_code = None,
     error = Some msg, response_time_ms = t, final_url = u,
     redirects = 0, method_used = None, attempt = a\<rparr>"

text \<open>
  The loop over \<open>methods_to_try\<close>. It carries \<open>last_exception\<close> and the requests issued
  so far, and returns the result with the list of requests issued.
\<close>

fun try_methods :: "world \<Rightarrow> string \<Rightarrow> int \<Rightarrow> http_method list \<Rightarrow> string option
    \<Rightarrow> http_method list \<Rightarrow> link_result \<times> http_method list" where
  "try_methods w u a [] last_exception calls =
     (failure u (''Connection failed: '' @
         (case last_exception of None \<Rightarrow> ''None'' | Some e \<Rightarrow> e))
        (elapsed_ms w u a (length calls)) a, calls)"
| "try_methods w u a (m # ms) last_exception calls =
     (case request w m u a of
        Inl e \<Rightarrow> try_methods w u a ms (Some e) (calls @ [m])
      | Inr response \<Rightarrow>
          (case classify m (resp_status_code response) of
             None \<Rightarrow> try_methods w u a ms last_exception (calls @ [m])
           | Some (st, err) \<Rightarrow>
               (\<lparr>url = u, status = st, status_code = Some (resp_status_code response),
                 error = err, response_time_ms = elapsed_ms w u a (Suc (length calls)),
                 final_url = resp_url response, redirects = resp_history response,
                 method_used = Some m, attempt = a\<rparr>, calls @ [m])))"

definition validate_single_link_attempt ::
  "world \<Rightarrow> string \<Rightarrow> int \<Rightarrow> link_result \<times> http_method list" where
  "validate_single_link_attempt w u a =
     (case urlparse w u of
        Inl e \<Rightarrow> (failure u (''Validation error: '' @ e) (elapsed_ms w u a 0) a, [])
      | Inr parsed \<Rightarrow>
          if scheme parsed = [] \<or> netloc parsed = [] then (invalid_format u a, [])
          else try_methods w u a [HEAD, GET] None [])"

section \<open>The retry coordinator (\<open>validate_single_link\<close>)\<close>

record validator =
  timeout :: nat
  max_workers :: int
  max_retries :: int

text \<open>\<open>EnhancedLinkValidator()\<close>, as the evaluator constructs it.\<close>

definition default_validator :: validator where
  "default_validator = \<lparr>timeout = 15, max_workers = 3, max_retries = 2\<rparr>"

text \<open>
  The loop over \<open>range(1, self.max_retries + 1)\<close>, carrying \<open>best_result\<close>. It returns
  what the function returns, the attempt numbers probed, and the number of
  \<open>time.sleep(1)\<close> calls.
\<close>

fun retry_loop :: "validator \<Rightarrow> world \<Rightarrow> string \<Rightarrow> int list \<Rightarrow> link_result option
    \<Rightarrow> link_result option \<times> int list \<times> nat" where
  "retry_loop v w u [] best_result = (best_result, [], 0)"
| "retry_loop v w u (a # rest) best_result =
     (let result = fst (validate_single_link_attempt w u a) in
      if status result = Valid then (Some result, [a], 0)
      else
        (let best' = (case best_result of
                        None \<Rightarrow> Some result
                      | Some b \<Rightarrow> if status result = Warning \<and> status b = Invalid
                                  then Some result else best_result);
             slept = (if a < max_retries v \<and> status result = Invalid then 1 else 0);
             (r, tried, sleeps) = retry_loop v w u rest best'
         in (r, a # tried, slept + sleeps)))"

definition validate_single_link ::
  "validator \<Rightarrow> world \<Rightarrow> string \<Rightarrow> link_result option \<times> int list \<times> nat" where
  "validate_single_link v w u = retry_loop v w u [1..max_retries v] None"

section \<open>The concurrent pool (\<open>validate_links\<close>)\<close>

text \<open>
  \<open>concurrent.futures.as_completed\<close>: the futures come back in an order the program does
  not control. \<open>pick n\<close> says which of the \<open>n\<close> futures still pending finishes next.
\<close>

function as_completed :: "(nat \<Rightarrow> nat) \<Rightarrow> 'a list \<Rightarrow> 'a list" where
  "as_completed pick [] = []"
| "as_completed pick (x # xs) =
     (let k = pick (Suc (length xs)) mod Suc (length xs)
      in (x # xs) ! k # as_completed pick (take k (x # xs) @ drop (Suc k) (x # xs)))"
  by pat_completeness auto
termination
  by (relation "measure (\<lambda>(pick, xs). length xs)") auto

text \<open>\<open>future.result()\<close>: what the worker returned, or the exception that escaped it.\<close>

definition future_result :: "validator \<Rightarrow> world \<Rightarrow> string \<Rightarrow> string + link_result option" where
  "future_result v w u = (case worker_fault w of
      Some e \<Rightarrow> Inl e
    | None \<Rightarrow> Inr (fst (validate_single_link v w u)))"

text \<open>
  The body of the loop over the completed futures. A worker that returned \<open>None\<close> has its
  \<open>None\<close> appended; with \<open>show_progress\<close> the next line subscripts it, and the \<open>TypeError\<close>
  lands in the handler, which appends a second entry for the same URL.
\<close>

definition none_not_subscriptable :: string where
  "none_not_subscriptable = [CHR 0x27] @ ''NoneType'' @ [CHR 0x27] @ '' object is not subscriptable''"

fun collect_results :: "bool \<Rightarrow> (string \<times> (string + link_result option)) list
    \<Rightarrow> link_result option list" where
  "collect_results show_progress [] = []"
| "collect_results show_progress ((u, Inl e) # rest) =
     Some (failure u (''Validation failed: '' @ e) 0 1) # collect_results show_progress rest"
| "collect_results show_progress ((u, Inr None) # rest) =
     (if show_progress
      then [None, Some (failure u (''Validation failed: '' @ none_not_subscriptable) 0 1)]
      else [None]) @ collect_results show_progress rest"
| "collect_results show_progress ((u, Inr (Some r)) # rest) =
     Some r # collect_results show_progress rest"

text \<open>
  \<open>validate_links\<close>: the results in completion order and the URLs submitted to the
  executor. The worker of the \<open>i\<close>-th URL of the batch runs in the world \<open>worlds i\<close>.
  An empty batch returns before the executor is built.
  \<open>ThreadPoolExecutor(max_workers=self.max_workers)\<close> stands outside every \<open>try\<close> and
  raises \<open>ValueError\<close> when the worker count is 0 or less (\<open>Inl\<close>).
\<close>

definition validate_links :: "validator \<Rightarrow> (nat \<Rightarrow> world) \<Rightarrow> (nat \<Rightarrow> nat) \<Rightarrow> bool
    \<Rightarrow> string list \<Rightarrow> string + (link_result option list \<times> string list)" where
  "validate_links v worlds pick show_progress urls =
     (if urls = [] then Inr ([], [])
      else if max_workers v \<le> 0 then Inl ''max_workers must be greater than 0''
      else Inr (collect_results show_progress
              (as_completed pick
                 (map (\<lambda>(i, u). (u, future_result v (worlds i) u)) (enumerate 0 urls))),
            urls))"


section \<open>Per-prompt evaluation (\<open>MultiPromptEvaluator.run_single_prompt_evaluation\<close>)\<close>

record test_question =
  q_id :: string
  q_question :: string
  q_category :: string
  q_complexity :: string
  q_user_persona :: string

record prompt_version =
  pv_id :: string
  pv_name :: string
  pv_description :: string
  pv_version :: string
  pv_timestamp :: string

text \<open>
  A row of \<open>DatabaseManager.get_results_for_dashboard\<close>, with the entries the evaluator
  reads: \<open>id\<close>, \<open>input.question\<close>, \<open>output.response\<close>, \<open>output.response_time_ms\<close> and
  \<open>output.status\<close>. That function always sets them, so the defaults of the evaluator's
  \<open>.get\<close> calls are never taken.
\<close>

record api_response =
  ar_id :: string
  ar_question :: string
  ar_response :: string
  ar_response_time_ms :: int
  ar_status :: string

record detailed_result =
  dr_question_id :: string
  dr_question :: string
  dr_response :: string
  dr_response_time_ms :: int
  links_found :: nat
  links_valid :: nat
  links_warning :: nat
  links_invalid :: nat
  link_validation_results :: "link_result option list"
  extracted_links :: "string list"
  dr_category :: string
  dr_complexity :: string
  dr_user_persona :: string

record link_summary =
  total_links :: nat
  valid_links :: nat
  warning_links :: nat
  invalid_links :: nat
  questions_with_invalid_links :: nat

text \<open>
  \<open>avg_response_time_ms\<close> is the quotient of two integers, kept exact (or the integer 0
  of the guard's other branch).
\<close>

record perf_metrics =
  avg_response_time_ms :: rat
  successful_responses :: nat
  failed_responses :: nat

record evaluation_result =
  ev_prompt_version :: prompt_version
  ev_session_id :: string
  ev_test_name :: string
  ev_total_questions :: nat
  api_results :: "api_response list"
  detailed_results :: "detailed_result list"
  link_validation_summary :: link_summary
  performance_metrics :: perf_metrics

text \<open>
  What one prompt version's run gets from outside: the session id \<open>run_test_suite\<close>
  returns (asking the API and writing the database), the rows read back for it, and for
  the links of the \<open>i\<close>-th response the worlds of the workers and the completion order.
\<close>

record run_world =
  suite_session_id :: "string option"
  dashboard_rows :: "api_response list"
  link_worlds :: "nat \<Rightarrow> nat \<Rightarrow> world"
  completion :: "nat \<Rightarrow> nat \<Rightarrow> nat"

text \<open>\<open>next((f(q) for q in questions if q.id == question_id), default)\<close>\<close>

definition lookup_question ::
  "(test_question \<Rightarrow> string) \<Rightarrow> string \<Rightarrow> string \<Rightarrow> test_question list \<Rightarrow> string" where
  "lookup_question f dflt qid questions =
     (case find (\<lambda>q. q_id q = qid) questions of None \<Rightarrow> dflt | Some q \<Rightarrow> f q)"

text \<open>\<open>len([link for link in link_results if link["status"] == st])\<close>\<close>

definition count_status :: "link_status \<Rightarrow> link_result option list \<Rightarrow> nat" where
  "count_status st link_results =
     length (filter (\<lambda>l. map_option status l = Some st) link_results)"

text \<open>
  The loop over \<open>enumerate(api_responses, 1)\<close>, carrying \<open>link_validation_summary\<close>.
  The evaluator's validator is \<open>EnhancedLinkValidator()\<close>. An exception of
  \<open>validate_links\<close> leaves the loop, and so does subscripting a \<open>None\<close> entry of
  \<open>link_results\<close>: nothing in the evaluator catches either (\<open>Inl\<close>).
\<close>

fun validate_responses :: "run_world \<Rightarrow> test_question list \<Rightarrow> nat \<Rightarrow> api_response list
    \<Rightarrow> link_summary \<Rightarrow> string + (link_summary \<times> detailed_result list)" where
  "validate_responses rw questions i [] summary = Inr (summary, [])"
| "validate_responses rw questions i (response # rest) summary =
     (let extracted = extract_links (ar_response response) in
      case (if extracted \<noteq> []
            then map_sum id fst
                   (validate_links default_validator (link_worlds rw i) (completion rw i)
                      False extracted)
            else Inr []) of
        Inl e \<Rightarrow> Inl e
      | Inr link_results \<Rightarrow>
         if None \<in> set link_results then Inl none_not_subscriptable
         else
           (let valid = count_status Valid link_results;
                warning = count_status Warning link_results;
                invalid = count_status Invalid link_results;
                summary' = summary\<lparr>
                  total_links := total_links summary + length extracted,
                  valid_links := valid_links summary + valid,
                  warning_links := warning_links summary + warning,
                  invalid_links := invalid_links summary + invalid,
                  questions_with_invalid_links := questions_with_invalid_links summary
                    + (if invalid > 0 then 1 else 0)\<rparr>;
                result = \<lparr>dr_question_id = ar_id response,
                  dr_question = ar_question response,
                  dr_response = ar_response response,
                  dr_response_time_ms = ar_response_time_ms response,
                  links_found = length extracted, links_valid = valid,
                  links_warning = warning, links_invalid = invalid,
                  link_validation_results = link_results, extracted_links = extracted,
                  dr_category = lookup_question q_category ''unknown'' (ar_id response) questions,
                  dr_complexity = lookup_question q_complexity ''basic'' (ar_id response) questions,
                  dr_user_persona =
                    lookup_question q_user_persona ''general'' (ar_id response) questions\<rparr>
            in case validate_responses rw questions (Suc i) rest summary' of
                 Inl e \<Rightarrow> Inl e
               | Inr (final, details) \<Rightarrow> Inr (final, result # details)))"

definition empty_summary :: link_summary where
  "empty_summary = \<lparr>total_links = 0, valid_links = 0, warning_links = 0, invalid_links = 0,
     questions_with_invalid_links = 0\<rparr>"

text \<open>
  Python's \<open>a / n\<close> on an integer and a length: \<open>ZeroDivisionError\<close> when \<open>n\<close> is 0.
\<close>

definition py_truediv :: "int \<Rightarrow> nat \<Rightarrow> string + rat" where
  "py_truediv a n = (if n = 0 then Inl ''division by zero'' else Inr (of_int a / of_nat n))"

text \<open>
  \<open>sum(r["response_time_ms"] for r in detailed_results) / len(detailed_results)
  if detailed_results else 0\<close>
\<close>

definition average_response_time :: "detailed_result list \<Rightarrow> string + rat" where
  "average_response_time details =
     (if details \<noteq> []
      then py_truediv (sum_list (map dr_response_time_ms details)) (length details)
      else Inr 0)"

text \<open>
  \<open>run_single_prompt_evaluation\<close>: \<open>Inr None\<close> is the \<open>return None\<close> after a failed test
  suite, \<open>Inl\<close> an exception that leaves the function.
\<close>

definition run_single_prompt_evaluation :: "run_world \<Rightarrow> string \<Rightarrow> prompt_version
    \<Rightarrow> test_question list \<Rightarrow> string + evaluation_result option" where
  "run_single_prompt_evaluation rw session_name pv questions =
     (case suite_session_id rw of
        None \<Rightarrow> Inr None
      | Some session_id \<Rightarrow>
          if session_id = [] then Inr None
          else
            (case validate_responses rw questions 1 (dashboard_rows rw) empty_summary of
               Inl e \<Rightarrow> Inl e
             | Inr (summary, details) \<Rightarrow>
                (case average_response_time details of
                   Inl e \<Rightarrow> Inl e
                 | Inr average \<Rightarrow> Inr (Some
                 \<lparr>ev_prompt_version = pv, ev_session_id = session_id,
                  ev_test_name = session_name @ '' - '' @ pv_name pv,
                  ev_total_questions = length questions,
                  api_results = dashboard_rows rw,
                  detailed_results = details,
                  link_validation_summary = summary,
                  performance_metrics = \<lparr>
                    avg_response_time_ms = average,
                    successful_responses =
                      length (filter (\<lambda>r. ar_status r = ''success'') (dashboard_rows rw)),
                    failed_responses =
                      length (filter (\<lambda>r. ar_status r \<noteq> ''success'')
                                (dashboard_rows rw))\<rparr>\<rparr>))))"

section \<open>The orchestrator (\<open>run_multi_prompt_evaluation\<close>) and its gate\<close>

record evaluation_session =
  s_id :: string
  s_name :: string
  s_description :: string
  s_created_at :: string
  test_questions :: "test_question list"
  prompt_versions :: "prompt_version list"
  results :: "(string \<times> evaluation_result) list"

record evaluator =
  current_session :: "evaluation_session option"
  results_by_prompt :: "(string \<times> evaluation_result) list"

text \<open>
  A Python \<open>dict\<close> keeps its keys in insertion order, and assigning to a key that is
  there keeps the key's place.
\<close>

fun dict_set :: "'k \<Rightarrow> 'v \<Rightarrow> ('k \<times> 'v) list \<Rightarrow> ('k \<times> 'v) list" where
  "dict_set k v [] = [(k, v)]"
| "dict_set k v ((k', v') # rest) =
     (if k = k' then (k, v) # rest else (k', v') # dict_set k v rest)"

text \<open>\<open>str.strip\<close> and \<open>str.lower\<close> on the code points 0..255.\<close>

definition is_space :: "char \<Rightarrow> bool" where
  "is_space c = (let n = code c in
     (9 \<le> n \<and> n \<le> 13) \<or> (28 \<le> n \<and> n \<le> 32) \<or> n = 133 \<or> n = 160)"

definition py_strip :: "string \<Rightarrow> string" where
  "py_strip s = rev (dropWhile is_space (rev (dropWhile is_space s)))"

definition lower_char :: "char \<Rightarrow> char" where
  "lower_char c = (let n = code c in
     if (65 \<le> n \<and> n \<le> 90) \<or> (192 \<le> n \<and> n \<le> 214) \<or> (216 \<le> n \<and> n \<le> 222)
     then char_of (n + 32) else c)"

definition py_lower :: "string \<Rightarrow> string" where
  "py_lower s = map lower_char s"

text \<open>
  \<open>wait_for_prompt_change\<close> reads the operator's lines until one is a directive. The
  lines the operator will type are a list; \<open>input()\<close> on an exhausted list raises
  \<open>EOFError\<close>. \<open>SystemExit\<close> is the \<open>sys.exit(0)\<close> of \<open>quit\<close>.
\<close>

datatype gate_outcome = Return bool | SystemExit int | EOFError

fun wait_for_prompt_change :: "string list \<Rightarrow> gate_outcome \<times> string list" where
  "wait_for_prompt_change [] = (EOFError, [])"
| "wait_for_prompt_change (line # rest) =
     (let user_input = py_lower (py_strip line) in
      if user_input = [] then (Return True, rest)
      else if user_input = ''skip'' then (Return False, rest)
      else if user_input = ''quit'' then (SystemExit 0, rest)
      else wait_for_prompt_change rest)"

text \<open>
  How a call ends: it returns, an exception leaves it, or the interpreter exits.
  \<open>connection_ok\<close> is \<open>test_api_connection()\<close>; \<open>runs i\<close> is the world of the run of the
  \<open>i\<close>-th prompt version of the list.
\<close>

datatype 'a outcome = Returned 'a | Raised string | Exited int

record orchestrator_world =
  connection_ok :: bool
  runs :: "nat \<Rightarrow> run_world"

text \<open>
  The loop over \<open>enumerate(prompt_versions, 1)\<close>. It carries the session (whose
  \<open>prompt_versions\<close> it appends to), the local dictionary \<open>all_results\<close> and the lines
  not yet read. The two \<open>time.sleep\<close> delays change no value and are left out.
\<close>

fun versions_loop :: "orchestrator_world \<Rightarrow> test_question list \<Rightarrow> nat \<Rightarrow> prompt_version list
    \<Rightarrow> evaluation_session \<Rightarrow> (string \<times> evaluation_result) list \<Rightarrow> string list
    \<Rightarrow> (string \<times> evaluation_result) list outcome \<times> evaluation_session \<times> string list" where
  "versions_loop ow questions i [] session all_results inputs =
     (Returned all_results, session, inputs)"
| "versions_loop ow questions i (pv # rest) session all_results inputs =
     (case wait_for_prompt_change inputs of
        (SystemExit c, inputs') \<Rightarrow> (Exited c, session, inputs')
      | (EOFError, inputs') \<Rightarrow> (Raised ''EOFError'', session, inputs')
      | (Return should_continue, inputs') \<Rightarrow>
          if \<not> should_continue
          then versions_loop ow questions (Suc i) rest session all_results inputs'
          else
            (let session' = session\<lparr>prompt_versions := prompt_versions session @ [pv]\<rparr> in
             case run_single_prompt_evaluation (runs ow i) (s_name session) pv questions of
               Inl e \<Rightarrow> (Raised e, session', inputs')
             | Inr None \<Rightarrow>
                 versions_loop ow questions (Suc i) rest session' all_results inputs'
             | Inr (Some result) \<Rightarrow>
                 versions_loop ow questions (Suc i) rest session'
                   (dict_set (pv_id pv) result all_results) inputs'))"

text \<open>
  \<open>run_multi_prompt_evaluation\<close>: the outcome, the evaluator afterwards and the lines
  left. Only a loop that runs to its end reaches the two assignments that store
  \<open>all_results\<close> in the session and in \<open>results_by_prompt\<close>.
\<close>

definition run_multi_prompt_evaluation :: "orchestrator_world \<Rightarrow> evaluator
    \<Rightarrow> prompt_version list \<Rightarrow> test_question list option \<Rightarrow> string list
    \<Rightarrow> (string \<times> evaluation_result) list option outcome \<times> evaluator \<times> string list" where
  "run_multi_prompt_evaluation ow ev versions questions inputs =
     (case current_session ev of
        None \<Rightarrow> (Raised ''No evaluation session created. Call create_evaluation_session first.'',
                 ev, inputs)
      | Some session \<Rightarrow>
          if \<not> connection_ok ow then (Returned None, ev, inputs)
          else
            (case versions_loop ow
                    (case questions of None \<Rightarrow> test_questions session | Some qs \<Rightarrow> qs)
                    1 versions session [] inputs of
               (Returned all_results, session', inputs') \<Rightarrow>
                 (Returned (Some all_results),
                  ev\<lparr>current_session := Some (session'\<lparr>results := all_results\<rparr>),
                     results_by_prompt := all_results\<rparr>, inputs')
             | (Raised e, session', inputs') \<Rightarrow>
                 (Raised e, ev\<lparr>current_session := Some session'\<rparr>, inputs')
             | (Exited c, session', inputs') \<Rightarrow>
                 (Exited c, ev\<lparr>current_session := Some session'\<rparr>, inputs')))"

section \<open>The comparison summary (\<open>generate_comparison_summary\<close>)\<close>

text \<open>
  The \<open>overall_metrics\<close> of the summary. The per-prompt table of rounded figures takes
  no part in choosing the best prompt and is left out.
\<close>

record overall_metrics =
  total_prompts :: nat
  total_questions_per_prompt :: nat
  best_prompt_for_links :: "string option"
  best_prompt_for_response_time :: "string option"

text \<open>
  The rate the loop computes for one prompt version. The source computes it in floating
  point; the quotient is kept exact here, which orders and equates the rates as the
  floats do as long as the link counts stay below \<open>2 ^ 26\<close>.
\<close>

definition link_success_rate :: "link_summary \<Rightarrow> rat" where
  "link_success_rate link_summary =
     (if total_links link_summary > 0
      then (of_nat (valid_links link_summary + warning_links link_summary)
            / of_nat (total_links link_summary)) * 100
      else 100)"

text \<open>
  The loop over \<open>self.current_session.results.items()\<close>, carrying \<open>best_link_score\<close>,
  \<open>best_response_time\<close> (\<open>None\<close> is the initial \<open>float('inf')\<close>) and the metrics.
\<close>

fun summary_loop :: "(string \<times> evaluation_result) list \<Rightarrow> rat \<Rightarrow> rat option
    \<Rightarrow> overall_metrics \<Rightarrow> overall_metrics" where
  "summary_loop [] best_link_score best_response_time om = om"
| "summary_loop ((prompt_id, result) # rest) best_link_score best_response_time om =
     (let prompt_name = pv_name (ev_prompt_version result);
          rate = link_success_rate (link_validation_summary result);
          better_links = (rate > best_link_score);
          om1 = (if better_links then om\<lparr>best_prompt_for_links := Some prompt_name\<rparr> else om);
          avg = avg_response_time_ms (performance_metrics result);
          faster = (case best_response_time of None \<Rightarrow> True | Some t \<Rightarrow> avg < t);
          om2 = (if faster then om1\<lparr>best_prompt_for_response_time := Some prompt_name\<rparr>
                 else om1)
      in summary_loop rest
           (if better_links then rate else best_link_score)
           (if faster then Some avg else best_response_time) om2)"

text \<open>\<open>None\<close> is the empty dictionary returned when there is nothing to summarise.\<close>

definition generate_comparison_summary :: "evaluator \<Rightarrow> overall_metrics option" where
  "generate_comparison_summary ev =
     (case current_session ev of
        None \<Rightarrow> None
      | Some session \<Rightarrow>
          if results session = [] then None
          else Some (summary_loop (results session) (- 1) None
                 \<lparr>total_prompts = length (results session),
                  total_questions_per_prompt = length (test_questions session),
                  best_prompt_for_links = None,
                  best_prompt_for_response_time = None\<rparr>))"


section \<open>Notions the statements use\<close>

text \<open>The result of one probe, without the list of requests.\<close>

definition attempt_result :: "world \<Rightarrow> string \<Rightarrow> int \<Rightarrow> link_result" where
  "attempt_result w u a = fst (validate_single_link_attempt w u a)"


text \<open>
  The classification table of the specification (section 4.2), by its words: below 400
  valid, 404 invalid, 403, 429 and 500 or more warning, any other code invalid.
\<close>

definition table_status :: "int \<Rightarrow> link_status" where
  "table_status c =
     (if c < 400 then Valid
      else if c = 404 then Invalid
      else if c = 403 \<or> c = 429 \<or> c \<ge> 500 then Warning
      else Invalid)"

text \<open>
  What the pool holds for one URL once its future is done: the worker's result, or the
  invalid entry made from the exception that escaped the worker.
\<close>

definition pool_entry :: "validator \<Rightarrow> world \<Rightarrow> string \<Rightarrow> link_result option" where
  "pool_entry v w u = (case worker_fault w of
      Some e \<Rightarrow> Some (failure u (''Validation failed: '' @ e) 0 1)
    | None \<Rightarrow> fst (validate_single_link v w u))"

text \<open>The rate of one entry of the session's results.\<close>

definition entry_rate :: "string \<times> evaluation_result \<Rightarrow> rat" where
  "entry_rate e = link_success_rate (link_validation_summary (snd e))"

text \<open>The invariant of the running link summary.\<close>

definition summary_consistent :: "link_summary \<Rightarrow> bool" where
  "summary_consistent s \<longleftrightarrow>
     total_links s = valid_links s + warning_links s + invalid_links s"

text \<open>
  A line the gate acts on, and a line that says \<open>quit\<close>, after \<open>strip().lower()\<close>.
\<close>

definition is_directive :: "string \<Rightarrow> bool" where
  "is_directive line = (py_lower (py_strip line) = [] \<or> py_lower (py_strip line) = ''skip''
     \<or> py_lower (py_strip line) = ''quit'')"

definition says_quit :: "string \<Rightarrow> bool" where
  "says_quit line = (py_lower (py_strip line) = ''quit'')"

text \<open>The questions a run uses: the given ones, or the session's.\<close>

definition questions_of :: "evaluation_session \<Rightarrow> test_question list option \<Rightarrow> test_question list" where
  "questions_of session questions =
     (case questions of None \<Rightarrow> test_questions session | Some qs \<Rightarrow> qs)"

text \<open>
  The versions of a list for which the operator says proceed, read off the operator's
  lines alone, up to the first gate that does not return.
\<close>

fun passed_gate :: "prompt_version list \<Rightarrow> string list \<Rightarrow> prompt_version list" where
  "passed_gate [] inputs = []"
| "passed_gate (pv # rest) inputs =
     (case wait_for_prompt_change inputs of
        (Return should_continue, inputs') \<Rightarrow>
          if should_continue then pv # passed_gate rest inputs' else passed_gate rest inputs'
      | (SystemExit c, inputs') \<Rightarrow> []
      | (EOFError, inputs') \<Rightarrow> [])"

section \<open>Concrete worlds and sessions\<close>

definition respond :: "int \<Rightarrow> string + http_response" where
  "respond c = Inr \<lparr>resp_status_code = c, resp_url = ''https://example.com/'', resp_history = 0\<rparr>"

text \<open>
  A world whose URLs all parse with scheme and host, whose clock always reads 5 ms, and
  whose answers depend on the method and the attempt number only.
\<close>

definition scripted_world :: "(http_method \<Rightarrow> int \<Rightarrow> string + http_response) \<Rightarrow> world" where
  "scripted_world f = \<lparr>urlparse = (\<lambda>u. Inr \<lparr>scheme = ''https'', netloc = ''example.com''\<rparr>),
     request = (\<lambda>m u a. f m a), elapsed_ms = (\<lambda>u a k. 5), worker_fault = None\<rparr>"

definition world_ok :: world where
  "world_ok = scripted_world (\<lambda>m a. respond 200)"

text \<open>\<open>urlparse("https:///broken.example")\<close> has the scheme \<open>https\<close> and an empty host.\<close>

definition world_no_host :: world where
  "world_no_host = world_ok\<lparr>urlparse := (\<lambda>u. Inr \<lparr>scheme = ''https'', netloc = []\<rparr>)\<rparr>"



definition world_not_found :: world where
  "world_not_found = scripted_world (\<lambda>m a. respond 404)"

definition world_invalid_then_warning :: world where
  "world_invalid_then_warning = scripted_world (\<lambda>m a. if a = 1 then respond 404 else respond 503)"

definition world_warning_then_invalid :: world where
  "world_warning_then_invalid = scripted_world (\<lambda>m a. if a = 1 then respond 503 else respond 404)"


definition validator_no_attempts :: validator where
  "validator_no_attempts = \<lparr>timeout = 15, max_workers = 3, max_retries = 0\<rparr>"




definition first_done :: "nat \<Rightarrow> nat" where
  "first_done = (\<lambda>n. 0)"


text \<open>Runs of one prompt version: no rows; two rows whose links are live and dead.\<close>

definition run_empty :: run_world where
  "run_empty = \<lparr>suite_session_id = Some ''s1'', dashboard_rows = [],
     link_worlds = (\<lambda>i j. world_ok), completion = (\<lambda>i. first_done)\<rparr>"

definition run_two_rows :: run_world where
  "run_two_rows = \<lparr>suite_session_id = Some ''s2'',
     dashboard_rows =
       [\<lparr>ar_id = ''Q001'', ar_question = ''Where?'', ar_response = ''See https://example.com/a.'',
         ar_response_time_ms = 120, ar_status = ''success''\<rparr>,
        \<lparr>ar_id = ''Q002'', ar_question = ''When?'', ar_response = ''Try www.example.com/gone!'',
         ar_response_time_ms = 80, ar_status = ''success''\<rparr>],
     link_worlds = (\<lambda>i j. if i = 1 then world_ok else world_not_found),
     completion = (\<lambda>i. first_done)\<rparr>"

definition prompt_v1 :: prompt_version where
  "prompt_v1 = \<lparr>pv_id = ''prompt_v1'', pv_name = ''Baseline'', pv_description = ''current'',
     pv_version = ''1.0'', pv_timestamp = ''t1''\<rparr>"

definition prompt_v2 :: prompt_version where
  "prompt_v2 = \<lparr>pv_id = ''prompt_v2'', pv_name = ''Enhanced'', pv_description = ''modified'',
     pv_version = ''2.0'', pv_timestamp = ''t2''\<rparr>"

text \<open>
  A session whose stored results tie at 100 per cent (no links; four links, all
  reachable) ahead of a version at 50 per cent.
\<close>

definition sample_evaluation :: "prompt_version \<Rightarrow> nat \<Rightarrow> nat \<Rightarrow> nat \<Rightarrow> nat \<Rightarrow> evaluation_result" where
  "sample_evaluation pv n_total n_valid n_warning n_invalid =
     \<lparr>ev_prompt_version = pv, ev_session_id = ''s'', ev_test_name = ''demo - '' @ pv_name pv,
      ev_total_questions = 2, api_results = [], detailed_results = [],
      link_validation_summary = \<lparr>total_links = n_total, valid_links = n_valid,
        warning_links = n_warning, invalid_links = n_invalid,
        questions_with_invalid_links = 0\<rparr>,
      performance_metrics = \<lparr>avg_response_time_ms = 100, successful_responses = 2,
        failed_responses = 0\<rparr>\<rparr>"

definition prompt_v3 :: prompt_version where
  "prompt_v3 = \<lparr>pv_id = ''prompt_v3'', pv_name = ''Terse'', pv_description = ''short'',
     pv_version = ''3.0'', pv_timestamp = ''t3''\<rparr>"

definition session_demo :: evaluation_session where
  "session_demo = \<lparr>s_id = ''sess'', s_name = ''demo'', s_description = ''two prompts'',
     s_created_at = ''t0'', test_questions = [], prompt_versions = [], results = []\<rparr>"

definition session_tie :: evaluation_session where
  "session_tie = session_demo\<lparr>
     prompt_versions := [prompt_v1, prompt_v2, prompt_v3],
     results := [(''prompt_v1'', sample_evaluation prompt_v1 0 0 0 0),
                 (''prompt_v2'', sample_evaluation prompt_v2 4 3 1 0),
                 (''prompt_v3'', sample_evaluation prompt_v3 2 1 0 1)]\<rparr>"

definition evaluator_tie :: evaluator where
  "evaluator_tie = \<lparr>current_session = Some session_tie, results_by_prompt = results session_tie\<rparr>"

text \<open>An evaluator with a fresh session, and a world whose API answers.\<close>

definition evaluator_demo :: evaluator where
  "evaluator_demo = \<lparr>current_session = Some session_demo, results_by_prompt = []\<rparr>"

definition world_demo :: orchestrator_world where
  "world_demo = \<lparr>connection_ok = True, runs = (\<lambda>i. run_two_rows)\<rparr>"

section \<open>Properties of the link extractor\<close>

lemma occurrences_findall: "map snd (occurrences m off s) = findall m s"
  by (induction m off s rule: occurrences.induct) (auto split: option.splits)

lemma unique_links_set: "set (unique_links seen xs) = set xs - seen"
  by (induction seen xs rule: unique_links.induct) auto

lemma unique_links_distinct: "distinct (unique_links seen xs)"
  by (induction seen xs rule: unique_links.induct) (auto simp: unique_links_set)

lemma first_index_Cons:
  "first_index (x # xs) y = (if y = x then 0 else Suc (first_index xs y))"
  by (auto simp: first_index_def)

lemma unique_links_order:
  "sorted_wrt (\<lambda>a b. first_index xs a < first_index xs b) (unique_links seen xs)"
proof (induction xs arbitrary: seen)
  case Nil
  then show ?case by simp
next
  case (Cons x xs)
  have tail: "sorted_wrt (\<lambda>a b. first_index (x # xs) a < first_index (x # xs) b)
      (unique_links s xs)" if "x \<in> s" for s
  proof (rule sorted_wrt_mono_rel [OF _ Cons.IH [of s]])
    fix a b
    assume "a \<in> set (unique_links s xs)" "b \<in> set (unique_links s xs)"
      and "first_index xs a < first_index xs b"
    with that show "first_index (x # xs) a < first_index (x # xs) b"
      by (auto simp: first_index_Cons unique_links_set)
  qed
  show ?case
  proof (cases "x \<in> seen")
    case True
    with tail [of seen] show ?thesis by simp
  next
    case False
    have "first_index (x # xs) x < first_index (x # xs) b"
      if "b \<in> set (unique_links (insert x seen) xs)" for b
      using that by (auto simp: first_index_Cons unique_links_set)
    with False tail [of "insert x seen"] show ?thesis by simp
  qed
qed

lemma occurrences_lower:
  "(p, w) \<in> set (occurrences m off s) \<Longrightarrow> off \<le> p"
  by (induction m off s rule: occurrences.induct) (auto split: option.splits)

lemma occurrences_increasing: "sorted_wrt (<) (map fst (occurrences m off s))"
proof (induction m off s rule: occurrences.induct)
  case (1 m off)
  then show ?case by simp
next
  case (2 m off c cs)
  show ?case
  proof (cases "m (c # cs)")
    case None
    with 2 show ?thesis by simp
  next
    case (Some n)
    have "off < p" if "(p, w) \<in> set (occurrences m (off + max 1 n) (drop (max 1 n) (c # cs)))"
      for p w
      using occurrences_lower [OF that] by simp
    with 2 Some show ?thesis by auto
  qed
qed

lemma occurrences_at:
  "(p, w) \<in> set (occurrences m off s) \<Longrightarrow> take (length w) (drop (p - off) s) = w"
proof (induction m off s arbitrary: p w rule: occurrences.induct)
  case (1 m off)
  then show ?case by simp
next
  case (2 m off c cs)
  show ?case
  proof (cases "m (c # cs)")
    case None
    with 2 have mem: "(p, w) \<in> set (occurrences m (Suc off) cs)"
      and ih: "take (length w) (drop (p - Suc off) cs) = w"
      by simp_all
    from occurrences_lower [OF mem] have "p - off = Suc (p - Suc off)" by simp
    with ih show ?thesis by simp
  next
    case (Some n)
    show ?thesis
    proof (cases "(p, w) = (off, take n (c # cs))")
      case True
      then show ?thesis by (simp add: min_def)
    next
      case False
      with 2 Some
      have mem: "(p, w) \<in> set (occurrences m (off + max 1 n) (drop (max 1 n) (c # cs)))"
        by auto
      from 2 (2) [OF Some mem]
      have ih: "take (length w) (drop (p - (off + max 1 n)) (drop (max 1 n) (c # cs))) = w" .
      from occurrences_lower [OF mem] have "p - (off + max 1 n) + max 1 n = p - off" by simp
      with ih show ?thesis by (simp only: drop_drop)
    qed
  qed
qed

lemma occurrences_text:
  "map (\<lambda>(p, w). take (length w) (drop p s)) (occurrences m 0 s)
     = map snd (occurrences m 0 s)"
  using occurrences_at [of _ _ m 0 s] by (auto simp: case_prod_beta)

text \<open>
  Claim C2, as the code has it. For every text the extractor returns a list without
  duplicates that holds exactly the cleaned candidates, ordered by the first position of
  each URL in the list of cleaned candidates. That list is built from all matches of the
  scheme-prefixed pattern followed by all matches of the \<open>www\<close>-prefixed pattern; the
  matches of one pattern are the substrings of the text at strictly increasing offsets.
  The order is first-seen within that list, not across both forms by position in the
  text.
\<close>

theorem extract_links_unique_in_candidate_order:
  "distinct (extract_links text) \<and>
   set (extract_links text) = set (clean_links (all_links text)) \<and>
   all_links text = findall match_http text @ findall match_www text \<and>
   sorted_wrt (\<lambda>a b. first_index (clean_links (all_links text)) a
                     < first_index (clean_links (all_links text)) b) (extract_links text) \<and>
   (\<forall>m. findall m text = map snd (occurrences m 0 text)
      \<and> sorted_wrt (<) (map fst (occurrences m 0 text))
      \<and> map (\<lambda>(p, w). take (length w) (drop p text)) (occurrences m 0 text)
          = map snd (occurrences m 0 text))"
  unfolding extract_links_def
  using unique_links_distinct [of "{}"] unique_links_set [of "{}"]
    unique_links_order [of _ "{}"]
  by (simp add: all_links_def occurrences_findall occurrences_increasing occurrences_text)

text \<open>
  The theorem of C2 at a text with one candidate of each form: the \<open>www\<close> candidate
  stands first in the text and last in the result.
\<close>

theorem extract_links_unique_in_candidate_order_witness:
  "distinct (extract_links ''www.example.com http://foo.example.org'') \<and>
   clean_links (all_links ''www.example.com http://foo.example.org'')
     = [''http://foo.example.org'', ''https://www.example.com''] \<and>
   sorted_wrt (\<lambda>a b.
       first_index (clean_links (all_links ''www.example.com http://foo.example.org'')) a
     < first_index (clean_links (all_links ''www.example.com http://foo.example.org'')) b)
     (extract_links ''www.example.com http://foo.example.org'')"
proof -
  have "clean_links (all_links ''www.example.com http://foo.example.org'')
     = [''http://foo.example.org'', ''https://www.example.com'']"
    by code_simp
  with extract_links_unique_in_candidate_order [of "''www.example.com http://foo.example.org''"]
  show ?thesis by blast
qed

text \<open>
  Claim C2 as stated fails: in the text below the \<open>www\<close> candidate occurs at offset 0
  and the scheme-prefixed one at offset 16, and the extractor returns the scheme-prefixed
  one first. Ordering the candidates of both forms together by their offset gives the
  opposite order.
\<close>

theorem extract_links_text_order_counterexample:
  "occurrences match_www 0 ''www.example.com http://foo.example.org''
     = [(0, ''www.example.com'')] \<and>
   occurrences match_http 0 ''www.example.com http://foo.example.org''
     = [(16, ''http://foo.example.org'')] \<and>
   extract_links ''www.example.com http://foo.example.org''
     = [''http://foo.example.org'', ''https://www.example.com''] \<and>
   extract_links_first_seen ''www.example.com http://foo.example.org''
     = [''https://www.example.com'', ''http://foo.example.org'']"
  by code_simp

text \<open>
  Claim C9 at the text \<open>WWW.aaaaaaa.com www.bbbbbbb.com\<close>. The pattern matches
  \<open>WWW.\<close> because of \<open>re.IGNORECASE\<close>, but \<open>startswith('www.')\<close> is case-sensitive,
  so the upper-case candidate gets no scheme. Extracting again from the two returned
  links joined by a space (or by a newline) finds the second link with the
  scheme-prefixed pattern and returns the two in the opposite order.
\<close>

theorem extract_links_not_idempotent_upper_case_www:
  "extract_links ''WWW.aaaaaaa.com www.bbbbbbb.com''
     = [''WWW.aaaaaaa.com'', ''https://www.bbbbbbb.com''] \<and>
   extract_links (join_links '' '' (extract_links ''WWW.aaaaaaa.com www.bbbbbbb.com''))
     = [''https://www.bbbbbbb.com'', ''WWW.aaaaaaa.com''] \<and>
   extract_links (join_links [CHR 0x0A] (extract_links ''WWW.aaaaaaa.com www.bbbbbbb.com''))
     = [''https://www.bbbbbbb.com'', ''WWW.aaaaaaa.com'']"
  by code_simp

section \<open>Properties of the link prober\<close>

lemma try_methods_calls:
  "\<exists>extra. snd (try_methods w u a ms le calls) = calls @ extra \<and> (ms \<noteq> [] \<longrightarrow> extra \<noteq> [])"
proof (induction ms arbitrary: le calls)
  case Nil
  then show ?case by simp
next
  case (Cons m ms)
  show ?case
  proof (cases "request w m u a")
    case (Inl e)
    from Cons.IH [of "Some e" "calls @ [m]"] Inl show ?thesis by auto
  next
    case (Inr r)
    show ?thesis
    proof (cases "classify m (resp_status_code r)")
      case None
      from Cons.IH [of le "calls @ [m]"] Inr None show ?thesis by auto
    next
      case (Some p)
      with Inr show ?thesis by (cases p) simp
    qed
  qed
qed

lemma try_methods_calls_nonempty: "snd (try_methods w u a (m # ms) le []) \<noteq> []"
  using try_methods_calls [of w u a "m # ms" le "[]"] by auto

text \<open>
  Claim C3, as the code has it. When the URL parses, a probe issues no request exactly
  when the parsed URL lacks a scheme or lacks a host (one of the two missing is enough);
  the result is then invalid with the reason "Invalid URL format" and zero latency.
\<close>

theorem malformed_url_short_circuit:
  assumes "urlparse w u = Inr p"
  shows "(snd (validate_single_link_attempt w u a) = [] \<longleftrightarrow> (scheme p = [] \<or> netloc p = []))
       \<and> ((scheme p = [] \<or> netloc p = []) \<longrightarrow>
            fst (validate_single_link_attempt w u a) = invalid_format u a
          \<and> status (invalid_format u a) = Invalid
          \<and> error (invalid_format u a) = Some ''Invalid URL format''
          \<and> response_time_ms (invalid_format u a) = 0)"
  using assms try_methods_calls_nonempty [of w u a HEAD "[GET]" None]
  by (simp add: validate_single_link_attempt_def invalid_format_def)

text \<open>The theorem of C3 at a URL with a scheme and no host, and at one with both.\<close>

theorem malformed_url_short_circuit_witness:
  "urlparse world_no_host ''https:///broken.example'' = Inr \<lparr>scheme = ''https'', netloc = []\<rparr>
   \<and> snd (validate_single_link_attempt world_no_host ''https:///broken.example'' 1) = []
   \<and> fst (validate_single_link_attempt world_no_host ''https:///broken.example'' 1)
       = invalid_format ''https:///broken.example'' 1
   \<and> urlparse world_ok ''https://example.com/a''
       = Inr \<lparr>scheme = ''https'', netloc = ''example.com''\<rparr>
   \<and> snd (validate_single_link_attempt world_ok ''https://example.com/a'' 1) \<noteq> []"
proof -
  have h1: "urlparse world_no_host ''https:///broken.example''
      = Inr \<lparr>scheme = ''https'', netloc = []\<rparr>"
    by (simp add: world_no_host_def)
  have h2: "urlparse world_ok ''https://example.com/a''
      = Inr \<lparr>scheme = ''https'', netloc = ''example.com''\<rparr>"
    by (simp add: world_ok_def scripted_world_def)
  from malformed_url_short_circuit [OF h1, of 1] malformed_url_short_circuit [OF h2, of 1] h1 h2
  show ?thesis by simp
qed

text \<open>
  Claim C3 as stated fails: the URL \<open>https:///broken.example\<close> has a scheme and no
  host, so it does not lack both, and the probe still returns the malformed result
  without issuing a request.
\<close>

theorem malformed_needs_both_missing_counterexample:
  "urlparse world_no_host ''https:///broken.example'' = Inr \<lparr>scheme = ''https'', netloc = []\<rparr>
   \<and> validate_single_link_attempt world_no_host ''https:///broken.example'' 1
       = (invalid_format ''https:///broken.example'' 1, [])"
  by (simp add: world_no_host_def world_ok_def scripted_world_def validate_single_link_attempt_def)







section \<open>Properties of the retry coordinator\<close>

lemma retry_loop_valid_head:
  "status (attempt_result w u a) = Valid \<Longrightarrow>
   retry_loop v w u (a # rest) best = (Some (attempt_result w u a), [a], 0)"
  by (simp add: attempt_result_def)

lemma retry_loop_step:
  assumes "status (attempt_result w u a) \<noteq> Valid"
  shows "fst (retry_loop v w u (a # rest) best) =
           fst (retry_loop v w u rest
             (case best of
                None \<Rightarrow> Some (attempt_result w u a)
              | Some b \<Rightarrow> if status (attempt_result w u a) = Warning \<and> status b = Invalid
                          then Some (attempt_result w u a) else best))"
    and "fst (snd (retry_loop v w u (a # rest) best)) =
           a # fst (snd (retry_loop v w u rest
             (case best of
                None \<Rightarrow> Some (attempt_result w u a)
              | Some b \<Rightarrow> if status (attempt_result w u a) = Warning \<and> status b = Invalid
                          then Some (attempt_result w u a) else best)))"
  using assms unfolding attempt_result_def by (simp_all add: Let_def case_prod_beta)

declare retry_loop.simps(2) [simp del]

lemma not_valid_cases: "st \<noteq> Valid \<Longrightarrow> st \<noteq> Warning \<Longrightarrow> st = Invalid"
  by (cases st) simp_all

lemma retry_loop_first_valid:
  assumes "a \<in> set as" and "status (attempt_result w u a) = Valid"
    and "\<forall>b\<in>set (takeWhile (\<lambda>x. x \<noteq> a) as). status (attempt_result w u b) \<noteq> Valid"
  shows "fst (retry_loop v w u as best) = Some (attempt_result w u a)
       \<and> fst (snd (retry_loop v w u as best)) = takeWhile (\<lambda>x. x \<noteq> a) as @ [a]"
  using assms
proof (induction as arbitrary: best)
  case Nil
  then show ?case by simp
next
  case (Cons x xs)
  show ?case
  proof (cases "x = a")
    case True
    with Cons.prems(2) show ?thesis by (simp add: retry_loop_valid_head)
  next
    case False
    with Cons.prems have nv: "status (attempt_result w u x) \<noteq> Valid"
      and a: "a \<in> set xs"
      and rest: "\<forall>b\<in>set (takeWhile (\<lambda>x. x \<noteq> a) xs). status (attempt_result w u b) \<noteq> Valid"
      by auto
    from Cons.IH [OF a Cons.prems(2) rest] False show ?thesis
      by (simp add: retry_loop_step [OF nv])
  qed
qed

lemma retry_loop_tries_all:
  "\<forall>a\<in>set as. status (attempt_result w u a) \<noteq> Valid \<Longrightarrow>
   fst (snd (retry_loop v w u as best)) = as"
proof (induction as arbitrary: best)
  case Nil
  then show ?case by simp
next
  case (Cons x xs)
  then have nv: "status (attempt_result w u x) \<noteq> Valid" by simp
  from Cons show ?case by (simp add: retry_loop_step [OF nv])
qed

lemma retry_loop_keeps_held:
  "\<forall>a\<in>set as. status (attempt_result w u a) \<noteq> Valid \<Longrightarrow> status b \<noteq> Invalid \<Longrightarrow>
   fst (retry_loop v w u as (Some b)) = Some b"
proof (induction as)
  case Nil
  then show ?case by simp
next
  case (Cons x xs)
  then have nv: "status (attempt_result w u x) \<noteq> Valid" by simp
  from Cons show ?case by (simp add: retry_loop_step [OF nv])
qed

lemma retry_loop_held_invalid:
  assumes "\<forall>a\<in>set as. status (attempt_result w u a) \<noteq> Valid" and "status b = Invalid"
  shows "((\<forall>a\<in>set as. status (attempt_result w u a) \<noteq> Warning) \<longrightarrow>
            fst (retry_loop v w u as (Some b)) = Some b)
       \<and> (a \<in> set as \<and> status (attempt_result w u a) = Warning
            \<and> (\<forall>x\<in>set (takeWhile (\<lambda>x. x \<noteq> a) as). status (attempt_result w u x) \<noteq> Warning)
          \<longrightarrow> fst (retry_loop v w u as (Some b)) = Some (attempt_result w u a))"
  using assms(1)
proof (induction as)
  case Nil
  then show ?case by simp
next
  case (Cons x xs)
  then have nv: "status (attempt_result w u x) \<noteq> Valid"
    and nvs: "\<forall>a\<in>set xs. status (attempt_result w u a) \<noteq> Valid" by simp_all
  note IH = Cons.IH [OF nvs]
  show ?case
  proof (cases "status (attempt_result w u x) = Warning")
    case True
    have "fst (retry_loop v w u (x # xs) (Some b)) = Some (attempt_result w u x)"
      using True assms(2) retry_loop_keeps_held [OF nvs, of "attempt_result w u x" v]
      by (simp add: retry_loop_step [OF nv])
    with True show ?thesis by auto
  next
    case False
    then have "fst (retry_loop v w u (x # xs) (Some b)) = fst (retry_loop v w u xs (Some b))"
      by (simp add: retry_loop_step [OF nv])
    with False IH show ?thesis by auto
  qed
qed

lemma retry_loop_from_none:
  assumes "\<forall>a\<in>set as. status (attempt_result w u a) \<noteq> Valid"
  shows "(as \<noteq> [] \<and> (\<forall>a\<in>set as. status (attempt_result w u a) \<noteq> Warning) \<longrightarrow>
            fst (retry_loop v w u as None) = Some (attempt_result w u (hd as)))
       \<and> (a \<in> set as \<and> status (attempt_result w u a) = Warning
            \<and> (\<forall>x\<in>set (takeWhile (\<lambda>x. x \<noteq> a) as). status (attempt_result w u x) \<noteq> Warning)
          \<longrightarrow> fst (retry_loop v w u as None) = Some (attempt_result w u a))"
proof (cases as)
  case Nil
  then show ?thesis by simp
next
  case (Cons x xs)
  with assms have nv: "status (attempt_result w u x) \<noteq> Valid"
    and nvs: "\<forall>a\<in>set xs. status (attempt_result w u a) \<noteq> Valid" by simp_all
  have step: "fst (retry_loop v w u as None)
      = fst (retry_loop v w u xs (Some (attempt_result w u x)))"
    by (simp add: Cons retry_loop_step [OF nv])
  show ?thesis
  proof (cases "status (attempt_result w u x) = Warning")
    case True
    with retry_loop_keeps_held [OF nvs, of "attempt_result w u x" v] step Cons
    show ?thesis by auto
  next
    case False
    with nv have inv: "status (attempt_result w u x) = Invalid"
      by (rule not_valid_cases)
    from retry_loop_held_invalid [OF nvs inv, of v a] step Cons False
    show ?thesis by auto
  qed
qed

lemma takeWhile_upto:
  assumes "i \<le> a" and "a \<le> j"
  shows "takeWhile (\<lambda>x. x \<noteq> a) [i..j] = [i..a - 1]"
proof -
  have "[i..j] = [i..a - 1] @ a # [a + 1..j]"
    using assms by (rule upto_split3)
  then show ?thesis by (simp add: takeWhile_tail)
qed

lemma retry_loop_not_None:
  "as \<noteq> [] \<or> best \<noteq> None \<Longrightarrow> fst (retry_loop v w u as best) \<noteq> None"
proof (induction as arbitrary: best)
  case Nil
  then show ?case by simp
next
  case (Cons x xs)
  show ?case
  proof (cases "status (attempt_result w u x) = Valid")
    case True
    then show ?thesis by (simp add: retry_loop_valid_head)
  next
    case False
    show ?thesis
      unfolding retry_loop_step(1) [OF False]
      by (rule Cons.IH) (simp split: option.splits)
  qed
qed

lemma validate_single_link_not_None:
  "1 \<le> max_retries v \<Longrightarrow> fst (validate_single_link v w u) \<noteq> None"
  unfolding validate_single_link_def
  by (rule retry_loop_not_None) (simp add: upto_rec1)

text \<open>
  Claim C5, as the code has it, for a maximum attempt count of at least 1. The
  coordinator returns a result. It returns the first attempt that classifies valid and
  probes no further. When no attempt classifies valid it probes all of them and returns
  the first attempt that classifies warning if there is one, otherwise the first
  attempt: a warning displaces a held invalid, an invalid displaces nothing, and a held
  warning is never displaced.
\<close>

theorem retry_coordinator_best_of_attempts:
  assumes "1 \<le> max_retries v"
  shows "fst (validate_single_link v w u) \<noteq> None
    \<and> (\<forall>a. 1 \<le> a \<and> a \<le> max_retries v \<and> status (attempt_result w u a) = Valid
            \<and> (\<forall>b. 1 \<le> b \<and> b < a \<longrightarrow> status (attempt_result w u b) \<noteq> Valid)
         \<longrightarrow> fst (validate_single_link v w u) = Some (attempt_result w u a)
           \<and> fst (snd (validate_single_link v w u)) = [1..a])
    \<and> ((\<forall>a. 1 \<le> a \<and> a \<le> max_retries v \<longrightarrow> status (attempt_result w u a) \<noteq> Valid)
         \<longrightarrow> fst (snd (validate_single_link v w u)) = [1..max_retries v]
           \<and> (\<forall>a. 1 \<le> a \<and> a \<le> max_retries v \<and> status (attempt_result w u a) = Warning
                  \<and> (\<forall>b. 1 \<le> b \<and> b < a \<longrightarrow> status (attempt_result w u b) \<noteq> Warning)
                \<longrightarrow> fst (validate_single_link v w u) = Some (attempt_result w u a))
           \<and> ((\<forall>a. 1 \<le> a \<and> a \<le> max_retries v \<longrightarrow> status (attempt_result w u a) = Invalid)
                \<longrightarrow> fst (validate_single_link v w u) = Some (attempt_result w u 1)))"
proof -
  let ?n = "max_retries v"
  have ne: "[1..?n] \<noteq> []" and hd1: "hd [1..?n] = 1"
    using assms by (simp_all add: upto_rec1)
  have part1: "fst (validate_single_link v w u) \<noteq> None"
    using assms by (rule validate_single_link_not_None)
  have part2: "fst (validate_single_link v w u) = Some (attempt_result w u a)
      \<and> fst (snd (validate_single_link v w u)) = [1..a]"
    if "1 \<le> a \<and> a \<le> ?n \<and> status (attempt_result w u a) = Valid
        \<and> (\<forall>b. 1 \<le> b \<and> b < a \<longrightarrow> status (attempt_result w u b) \<noteq> Valid)" for a
  proof -
    from that have tw: "takeWhile (\<lambda>x. x \<noteq> a) [1..?n] = [1..a - 1]"
      by (simp add: takeWhile_upto)
    have "[1..a - 1] @ [a] = [1..a]"
      using that by (simp add: upto_rec2)
    with retry_loop_first_valid [of a "[1..?n]" w u v None] that tw show ?thesis
      by (simp add: validate_single_link_def)
  qed
  have part3: "fst (snd (validate_single_link v w u)) = [1..?n]
      \<and> (\<forall>a. 1 \<le> a \<and> a \<le> ?n \<and> status (attempt_result w u a) = Warning
             \<and> (\<forall>b. 1 \<le> b \<and> b < a \<longrightarrow> status (attempt_result w u b) \<noteq> Warning)
           \<longrightarrow> fst (validate_single_link v w u) = Some (attempt_result w u a))
      \<and> ((\<forall>a. 1 \<le> a \<and> a \<le> ?n \<longrightarrow> status (attempt_result w u a) = Invalid)
           \<longrightarrow> fst (validate_single_link v w u) = Some (attempt_result w u 1))"
    if "\<forall>a. 1 \<le> a \<and> a \<le> ?n \<longrightarrow> status (attempt_result w u a) \<noteq> Valid"
  proof -
    from that have nv: "\<forall>a\<in>set [1..?n]. status (attempt_result w u a) \<noteq> Valid" by simp
    have a: "fst (snd (validate_single_link v w u)) = [1..?n]"
      unfolding validate_single_link_def by (rule retry_loop_tries_all [OF nv])
    have b: "fst (validate_single_link v w u) = Some (attempt_result w u a)"
      if w: "1 \<le> a \<and> a \<le> ?n \<and> status (attempt_result w u a) = Warning
             \<and> (\<forall>b. 1 \<le> b \<and> b < a \<longrightarrow> status (attempt_result w u b) \<noteq> Warning)" for a
    proof -
      from w have tw: "takeWhile (\<lambda>x. x \<noteq> a) [1..?n] = [1..a - 1]"
        by (simp add: takeWhile_upto)
      from retry_loop_from_none [OF nv, of v a] w tw show ?thesis
        by (simp add: validate_single_link_def)
    qed
    have c: "fst (validate_single_link v w u) = Some (attempt_result w u 1)"
      if "\<forall>a. 1 \<le> a \<and> a \<le> ?n \<longrightarrow> status (attempt_result w u a) = Invalid"
    proof -
      from that have "\<forall>a\<in>set [1..?n]. status (attempt_result w u a) \<noteq> Warning" by simp
      with retry_loop_from_none [OF nv, of v] ne hd1 show ?thesis
        by (simp add: validate_single_link_def)
    qed
    from a b c show ?thesis by blast
  qed
  from part1 part2 part3 show ?thesis by blast
qed

text \<open>
  The theorem of C5 with two attempts: invalid then warning returns the warning, warning
  then invalid returns the warning, and a valid first attempt is the only one probed.
\<close>

lemma scripted_status:
  "f HEAD a = respond c \<Longrightarrow> c \<noteq> 404 \<Longrightarrow> c \<noteq> 403 \<Longrightarrow>
   status (attempt_result (scripted_world f) u a) = table_status c"
  "f HEAD a = respond 404 \<Longrightarrow> f GET a = respond c \<Longrightarrow>
   status (attempt_result (scripted_world f) u a) = table_status c"
  by (auto simp: attempt_result_def scripted_world_def validate_single_link_attempt_def
      respond_def classify_def table_status_def)

theorem retry_coordinator_best_of_attempts_witness:
  "1 \<le> max_retries default_validator
   \<and> status (attempt_result world_invalid_then_warning ''https://example.com/a'' 1) = Invalid
   \<and> status (attempt_result world_invalid_then_warning ''https://example.com/a'' 2) = Warning
   \<and> fst (validate_single_link default_validator world_invalid_then_warning ''https://example.com/a'')
       = Some (attempt_result world_invalid_then_warning ''https://example.com/a'' 2)
   \<and> status (attempt_result world_warning_then_invalid ''https://example.com/a'' 1) = Warning
   \<and> status (attempt_result world_warning_then_invalid ''https://example.com/a'' 2) = Invalid
   \<and> fst (validate_single_link default_validator world_warning_then_invalid ''https://example.com/a'')
       = Some (attempt_result world_warning_then_invalid ''https://example.com/a'' 1)
   \<and> status (attempt_result world_ok ''https://example.com/a'' 1) = Valid
   \<and> fst (snd (validate_single_link default_validator world_ok ''https://example.com/a'')) = [1]"
proof -
  let ?u = "''https://example.com/a''"
  have n: "1 \<le> max_retries default_validator" and n2: "max_retries default_validator = 2"
    by (simp_all add: default_validator_def)
  have iw: "status (attempt_result world_invalid_then_warning ?u 1) = Invalid"
    "status (attempt_result world_invalid_then_warning ?u 2) = Warning"
    and wi: "status (attempt_result world_warning_then_invalid ?u 1) = Warning"
    "status (attempt_result world_warning_then_invalid ?u 2) = Invalid"
    and ok: "status (attempt_result world_ok ?u 1) = Valid"
    by (simp_all add: world_invalid_then_warning_def world_warning_then_invalid_def world_ok_def
        scripted_status table_status_def)
  have range: "1 \<le> a \<and> a \<le> 2 \<longleftrightarrow> a = 1 \<or> a = 2" for a :: int by auto
  have below: "1 \<le> b \<and> b < 2 \<longleftrightarrow> b = 1" for b :: int by auto
  have no_valid1: "\<forall>a. 1 \<le> a \<and> a \<le> max_retries default_validator \<longrightarrow>
      status (attempt_result world_invalid_then_warning ?u a) \<noteq> Valid"
    using iw by (auto simp: n2 range)
  have no_valid2: "\<forall>a. 1 \<le> a \<and> a \<le> max_retries default_validator \<longrightarrow>
      status (attempt_result world_warning_then_invalid ?u a) \<noteq> Valid"
    using wi by (auto simp: n2 range)
  have first1: "1 \<le> (2::int) \<and> 2 \<le> max_retries default_validator
      \<and> status (attempt_result world_invalid_then_warning ?u 2) = Warning
      \<and> (\<forall>b. 1 \<le> b \<and> b < 2 \<longrightarrow> status (attempt_result world_invalid_then_warning ?u b) \<noteq> Warning)"
    using iw by (simp add: n2 below)
  have first2: "1 \<le> (1::int) \<and> 1 \<le> max_retries default_validator
      \<and> status (attempt_result world_warning_then_invalid ?u 1) = Warning
      \<and> (\<forall>b. 1 \<le> b \<and> b < 1 \<longrightarrow> status (attempt_result world_warning_then_invalid ?u b) \<noteq> Warning)"
    using wi by (auto simp: n2)
  have first3: "1 \<le> (1::int) \<and> 1 \<le> max_retries default_validator
      \<and> status (attempt_result world_ok ?u 1) = Valid
      \<and> (\<forall>b. 1 \<le> b \<and> b < 1 \<longrightarrow> status (attempt_result world_ok ?u b) \<noteq> Valid)"
    using ok by (auto simp: n2)
  note t1 = retry_coordinator_best_of_attempts [OF n, of world_invalid_then_warning ?u]
  note t2 = retry_coordinator_best_of_attempts [OF n, of world_warning_then_invalid ?u]
  note t3 = retry_coordinator_best_of_attempts [OF n, of world_ok ?u]
  have r1: "fst (validate_single_link default_validator world_invalid_then_warning ?u)
      = Some (attempt_result world_invalid_then_warning ?u 2)"
    using t1 no_valid1 first1 by blast
  have r2: "fst (validate_single_link default_validator world_warning_then_invalid ?u)
      = Some (attempt_result world_warning_then_invalid ?u 1)"
    using t2 no_valid2 first2 by blast
  have "fst (snd (validate_single_link default_validator world_ok ?u)) = [1..1]"
    using t3 first3 by blast
  then have r3: "fst (snd (validate_single_link default_validator world_ok ?u)) = [1]"
    by simp
  from n iw wi ok r1 r2 r3 show ?thesis by blast
qed

text \<open>
  Claim C5 as stated fails when the maximum attempt count is 0: the loop body never
  runs, there is no first attempt, and the coordinator returns \<open>None\<close>.
\<close>

theorem retry_without_attempts_counterexample:
  "max_retries validator_no_attempts = 0
   \<and> validate_single_link validator_no_attempts world_ok ''https://example.com/a'' = (None, [], 0)"
  by (simp add: validate_single_link_def validator_no_attempts_def)

section \<open>Properties of the concurrent pool\<close>

declare as_completed.simps(2) [simp del]

lemma as_completed_mset: "mset (as_completed pick xs) = mset xs"
proof (induction pick xs rule: as_completed.induct)
  case (1 pick)
  then show ?case by simp
next
  case (2 pick x xs)
  define k where "k = pick (Suc (length xs)) mod Suc (length xs)"
  have k: "k < length (x # xs)" by (simp add: k_def)
  have "mset (x # xs) = mset (take k (x # xs) @ (x # xs) ! k # drop (Suc k) (x # xs))"
    using id_take_nth_drop [OF k] by simp
  also have "\<dots> = add_mset ((x # xs) ! k) (mset (take k (x # xs) @ drop (Suc k) (x # xs)))"
    by simp
  finally show ?case
    using "2.IH" [OF k_def] by (simp add: as_completed.simps(2) Let_def k_def [symmetric])
qed

lemma collect_results_map:
  "\<forall>p\<in>set fs. snd p \<noteq> Inr None \<Longrightarrow>
   collect_results sp fs =
     map (\<lambda>(u, f). case f of
            Inl e \<Rightarrow> Some (failure u (''Validation failed: '' @ e) 0 1)
          | Inr r \<Rightarrow> r) fs"
  by (induction sp fs rule: collect_results.induct) auto

lemma future_result_not_None:
  "1 \<le> max_retries v \<Longrightarrow> future_result v w u \<noteq> Inr None"
  using validate_single_link_not_None [of v w u]
  by (auto simp: future_result_def split: option.splits)





lemma pool_entry_not_None: "1 \<le> max_retries v \<Longrightarrow> pool_entry v w u \<noteq> None"
  using validate_single_link_not_None [of v w u]
  by (simp add: pool_entry_def split: option.splits)

lemma validate_links_mset:
  assumes "1 \<le> max_retries v" and "1 \<le> max_workers v"
  shows "\<exists>results. validate_links v worlds pick sp urls = Inr (results, urls)
       \<and> mset results
           = mset (map (\<lambda>(i, u). pool_entry v (worlds i) u) (enumerate 0 urls))"
proof (cases "urls = []")
  case True
  then show ?thesis by (simp add: validate_links_def)
next
  case False
  let ?futures = "map (\<lambda>(i, u). (u, future_result v (worlds i) u)) (enumerate 0 urls)"
  let ?g = "\<lambda>(u, f). case f of
            Inl e \<Rightarrow> Some (failure u (''Validation failed: '' @ e) 0 1)
          | Inr r \<Rightarrow> r"
  let ?results = "collect_results sp (as_completed pick ?futures)"
  have ret: "validate_links v worlds pick sp urls = Inr (?results, urls)"
    using False assms(2) by (simp add: validate_links_def)
  have "set (as_completed pick ?futures) = set ?futures"
    using as_completed_mset [of pick ?futures] by (rule mset_eq_setD)
  then have "\<forall>p\<in>set (as_completed pick ?futures). snd p \<noteq> Inr None"
    using future_result_not_None [OF assms(1)] by auto
  then have "?results = map ?g (as_completed pick ?futures)"
    by (rule collect_results_map)
  then have "mset ?results = image_mset ?g (mset ?futures)"
    by (simp add: as_completed_mset)
  also have "\<dots> = mset (map ?g ?futures)" by (simp only: mset_map)
  also have "map ?g ?futures = map (\<lambda>(i, u). pool_entry v (worlds i) u) (enumerate 0 urls)"
  proof -
    have "?g (u, future_result v (worlds i) u) = pool_entry v (worlds i) u" for i u
      by (simp add: future_result_def pool_entry_def split: option.splits)
    then show ?thesis by (simp add: case_prod_beta)
  qed
  finally show ?thesis using ret by blast
qed




section \<open>Properties of the per-prompt evaluation\<close>

lemma count_status_total:
  "None \<notin> set rs \<Longrightarrow>
   count_status Valid rs + count_status Warning rs + count_status Invalid rs = length rs"
proof (induction rs)
  case Nil
  then show ?case by (simp add: count_status_def)
next
  case (Cons r rs)
  then obtain x where r: "r = Some x" by (cases r) auto
  from Cons have "count_status Valid rs + count_status Warning rs + count_status Invalid rs
      = length rs" by simp
  then show ?case
    unfolding r by (cases "status x") (simp_all add: count_status_def)
qed

lemma default_validator_retries: "1 \<le> max_retries default_validator"
  by (simp add: default_validator_def)

lemma default_validator_workers: "1 \<le> max_workers default_validator"
  by (simp add: default_validator_def)

lemma default_pool:
  "\<exists>results. validate_links default_validator worlds pick sp urls = Inr (results, urls)
     \<and> length results = length urls \<and> None \<notin> set results"
proof -
  let ?entries = "map (\<lambda>(i, u). pool_entry default_validator (worlds i) u) (enumerate 0 urls)"
  from validate_links_mset [OF default_validator_retries default_validator_workers,
      of worlds pick sp urls]
  obtain results
    where ret: "validate_links default_validator worlds pick sp urls = Inr (results, urls)"
      and m: "mset results = mset ?entries"
    by blast
  from m have "length results = length ?entries" by (rule mset_eq_length)
  then have len: "length results = length urls" by simp
  from m have s: "set results = set ?entries" by (rule mset_eq_setD)
  have "e \<noteq> None" if "e \<in> set ?entries" for e
  proof -
    from that obtain i u where "e = pool_entry default_validator (worlds i) u" by auto
    with pool_entry_not_None [OF default_validator_retries] show ?thesis by simp
  qed
  then have "None \<notin> set results" unfolding s by blast
  with ret len show ?thesis by blast
qed

lemma validate_responses_no_exception:
  "\<exists>final details. validate_responses rw questions i responses summary = Inr (final, details)
     \<and> length details = length responses
     \<and> (summary_consistent summary \<longrightarrow> summary_consistent final)"
proof (induction responses arbitrary: i summary)
  case Nil
  then show ?case by simp
next
  case (Cons response rest)
  define extracted where "extracted = extract_links (ar_response response)"
  obtain pooled
    where pool: "validate_links default_validator (link_worlds rw i) (completion rw i) False
        extracted = Inr (pooled, extracted)"
      and plen: "length pooled = length extracted" and pnn: "None \<notin> set pooled"
    using default_pool by blast
  define link_results where "link_results = (if extracted \<noteq> [] then pooled else [])"
  have got: "(if extracted \<noteq> []
            then map_sum id fst
                   (validate_links default_validator (link_worlds rw i) (completion rw i)
                      False extracted)
            else Inr []) = Inr link_results"
    by (simp add: pool link_results_def)
  have nn: "None \<notin> set link_results"
    using pnn by (simp add: link_results_def)
  have len: "length link_results = length extracted"
    using plen by (simp add: link_results_def)
  have tot: "count_status Valid link_results + count_status Warning link_results
      + count_status Invalid link_results = length extracted"
    using count_status_total [OF nn] len by simp
  define summary' where "summary' = summary\<lparr>
      total_links := total_links summary + length extracted,
      valid_links := valid_links summary + count_status Valid link_results,
      warning_links := warning_links summary + count_status Warning link_results,
      invalid_links := invalid_links summary + count_status Invalid link_results,
      questions_with_invalid_links := questions_with_invalid_links summary
        + (if count_status Invalid link_results > 0 then 1 else 0)\<rparr>"
  have cons: "summary_consistent summary \<longrightarrow> summary_consistent summary'"
    using tot by (simp add: summary_consistent_def summary'_def)
  from Cons.IH [of "Suc i" summary'] obtain final details
    where rec: "validate_responses rw questions (Suc i) rest summary' = Inr (final, details)"
      and l: "length details = length rest"
      and c: "summary_consistent summary' \<longrightarrow> summary_consistent final"
    by blast
  have "validate_responses rw questions i (response # rest) summary
      = (case (if extracted \<noteq> []
            then map_sum id fst
                   (validate_links default_validator (link_worlds rw i) (completion rw i)
                      False extracted)
            else Inr []) of
          Inl e \<Rightarrow> Inl e
        | Inr link_results \<Rightarrow>
         if None \<in> set link_results then Inl none_not_subscriptable
         else case validate_responses rw questions (Suc i) rest
                (summary\<lparr>
                  total_links := total_links summary + length extracted,
                  valid_links := valid_links summary + count_status Valid link_results,
                  warning_links := warning_links summary + count_status Warning link_results,
                  invalid_links := invalid_links summary + count_status Invalid link_results,
                  questions_with_invalid_links := questions_with_invalid_links summary
                    + (if count_status Invalid link_results > 0 then 1 else 0)\<rparr>) of
                Inl e \<Rightarrow> Inl e
              | Inr (final, details) \<Rightarrow> Inr (final,
                  \<lparr>dr_question_id = ar_id response,
                   dr_question = ar_question response,
                   dr_response = ar_response response,
                   dr_response_time_ms = ar_response_time_ms response,
                   links_found = length extracted,
                   links_valid = count_status Valid link_results,
                   links_warning = count_status Warning link_results,
                   links_invalid = count_status Invalid link_results,
                   link_validation_results = link_results, extracted_links = extracted,
                   dr_category = lookup_question q_category ''unknown'' (ar_id response) questions,
                   dr_complexity = lookup_question q_complexity ''basic'' (ar_id response) questions,
                   dr_user_persona =
                     lookup_question q_user_persona ''general'' (ar_id response) questions\<rparr>
                  # details))"
    unfolding extracted_def
    by (simp only: validate_responses.simps Let_def)
  also have "\<dots> = (case validate_responses rw questions (Suc i) rest summary' of
                Inl e \<Rightarrow> Inl e
              | Inr (final, details) \<Rightarrow> Inr (final,
                  \<lparr>dr_question_id = ar_id response,
                   dr_question = ar_question response,
                   dr_response = ar_response response,
                   dr_response_time_ms = ar_response_time_ms response,
                   links_found = length extracted,
                   links_valid = count_status Valid link_results,
                   links_warning = count_status Warning link_results,
                   links_invalid = count_status Invalid link_results,
                   link_validation_results = link_results, extracted_links = extracted,
                   dr_category = lookup_question q_category ''unknown'' (ar_id response) questions,
                   dr_complexity = lookup_question q_complexity ''basic'' (ar_id response) questions,
                   dr_user_persona =
                     lookup_question q_user_persona ''general'' (ar_id response) questions\<rparr>
                  # details))"
    unfolding got summary'_def using nn by simp
  finally show ?case using rec l c cons by simp
qed

lemma average_response_time_returns:
  "\<exists>average. average_response_time details = Inr average"
  by (simp add: average_response_time_def py_truediv_def)

lemma run_single_no_exception:
  "run_single_prompt_evaluation rw session_name pv questions \<noteq> Inl e"
proof -
  obtain final details where "validate_responses rw questions 1 (dashboard_rows rw) empty_summary
      = Inr (final, details)"
    using validate_responses_no_exception by blast
  moreover obtain average where "average_response_time details = Inr average"
    using average_response_time_returns by blast
  ultimately show ?thesis
    by (simp add: run_single_prompt_evaluation_def split: option.splits)
qed

lemma run_single_returns:
  assumes "suite_session_id rw = Some session_id" and "session_id \<noteq> []"
  shows "\<exists>ev. run_single_prompt_evaluation rw session_name pv questions = Inr (Some ev)"
proof -
  obtain final details where "validate_responses rw questions 1 (dashboard_rows rw) empty_summary
      = Inr (final, details)"
    using validate_responses_no_exception by blast
  moreover obtain average where "average_response_time details = Inr average"
    using average_response_time_returns by blast
  ultimately show ?thesis
    using assms by (simp add: run_single_prompt_evaluation_def)
qed

text \<open>
  Claim C8. Every evaluation that \<open>run_single_prompt_evaluation\<close> computes has a total
  link count equal to the sum of its valid, warning and invalid link counts. (The
  function never raises, by \<open>run_single_no_exception\<close>, and returns an evaluation
  whenever the test suite gave a session id, by \<open>run_single_returns\<close>.)
\<close>

theorem total_links_is_sum:
  assumes "run_single_prompt_evaluation rw session_name pv questions = Inr (Some ev)"
  shows "total_links (link_validation_summary ev)
       = valid_links (link_validation_summary ev) + warning_links (link_validation_summary ev)
         + invalid_links (link_validation_summary ev)"
proof -
  obtain final details
    where v: "validate_responses rw questions 1 (dashboard_rows rw) empty_summary
        = Inr (final, details)"
      and c: "summary_consistent empty_summary \<longrightarrow> summary_consistent final"
    using validate_responses_no_exception by blast
  have "summary_consistent empty_summary"
    by (simp add: summary_consistent_def empty_summary_def)
  with c have "summary_consistent final" by simp
  moreover from assms v have "link_validation_summary ev = final"
    by (auto simp: run_single_prompt_evaluation_def split: option.splits if_splits sum.splits)
  ultimately show ?thesis by (simp add: summary_consistent_def)
qed

text \<open>
  The theorem of C8 at a run of two responses, one with a live link and one with a dead
  link: 2 links in total, 1 valid, 0 warning, 1 invalid.
\<close>

theorem total_links_is_sum_witness:
  "\<exists>ev. run_single_prompt_evaluation run_two_rows ''demo'' prompt_v1 [] = Inr (Some ev)
     \<and> total_links (link_validation_summary ev) = 2
     \<and> valid_links (link_validation_summary ev) = 1
     \<and> warning_links (link_validation_summary ev) = 0
     \<and> invalid_links (link_validation_summary ev) = 1
     \<and> total_links (link_validation_summary ev)
         = valid_links (link_validation_summary ev) + warning_links (link_validation_summary ev)
           + invalid_links (link_validation_summary ev)"
proof -
  have "suite_session_id run_two_rows = Some ''s2''" and "''s2'' \<noteq> []"
    by (simp_all add: run_two_rows_def)
  then obtain ev
    where ev: "run_single_prompt_evaluation run_two_rows ''demo'' prompt_v1 [] = Inr (Some ev)"
    using run_single_returns by blast
  have "map_sum id (map_option (\<lambda>ev. (total_links (link_validation_summary ev),
            valid_links (link_validation_summary ev),
            warning_links (link_validation_summary ev),
            invalid_links (link_validation_summary ev))))
          (run_single_prompt_evaluation run_two_rows ''demo'' prompt_v1 [])
      = Inr (Some (2, 1, 0, 1))"
    by code_simp
  with ev have "total_links (link_validation_summary ev) = 2"
    "valid_links (link_validation_summary ev) = 1"
    "warning_links (link_validation_summary ev) = 0"
    "invalid_links (link_validation_summary ev) = 1"
    by simp_all
  with ev total_links_is_sum [OF ev] show ?thesis by blast
qed

text \<open>
  Claim C10. When the run of a prompt version has a session id and no response rows,
  the evaluation is computed, its list of detailed results is empty, and the average
  response time is 0. The guard is what makes it so: the division of the sum by the
  number of detailed results, which the guard skips, raises for that empty list.
\<close>

theorem empty_responses_average_zero:
  assumes "suite_session_id rw = Some session_id" and "session_id \<noteq> []"
    and "dashboard_rows rw = []"
  shows "\<exists>ev. run_single_prompt_evaluation rw session_name pv questions = Inr (Some ev)
       \<and> detailed_results ev = []
       \<and> avg_response_time_ms (performance_metrics ev) = 0
       \<and> average_response_time (detailed_results ev) = Inr 0
       \<and> py_truediv (sum_list (map dr_response_time_ms (detailed_results ev)))
            (length (detailed_results ev)) = Inl ''division by zero''"
  using assms
  by (simp add: run_single_prompt_evaluation_def average_response_time_def py_truediv_def)

text \<open>The theorem of C10 at a run without rows.\<close>

theorem empty_responses_average_zero_witness:
  "suite_session_id run_empty = Some ''s1'' \<and> ''s1'' \<noteq> [] \<and> dashboard_rows run_empty = []
   \<and> (\<exists>ev. run_single_prompt_evaluation run_empty ''demo'' prompt_v1 [] = Inr (Some ev)
         \<and> detailed_results ev = []
         \<and> avg_response_time_ms (performance_metrics ev) = 0
         \<and> average_response_time (detailed_results ev) = Inr 0
         \<and> py_truediv (sum_list (map dr_response_time_ms (detailed_results ev)))
              (length (detailed_results ev)) = Inl ''division by zero'')"
proof -
  have h1: "suite_session_id run_empty = Some ''s1''" and h2: "''s1'' \<noteq> []"
    and h3: "dashboard_rows run_empty = []"
    by (simp_all add: run_empty_def)
  from empty_responses_average_zero [OF h1 h2 h3, of "''demo''" prompt_v1 "[]"] h1 h2 h3
  show ?thesis by blast
qed

section \<open>Properties of the comparison summary\<close>

lemma link_success_rate_nonneg: "0 \<le> link_success_rate s"
  by (simp add: link_success_rate_def)

lemma summary_loop_keeps_best:
  "\<forall>e\<in>set rs. entry_rate e \<le> score \<Longrightarrow>
   best_prompt_for_links (summary_loop rs score t om) = best_prompt_for_links om"
proof (induction rs arbitrary: score t om)
  case Nil
  then show ?case by simp
next
  case (Cons e rs)
  obtain pid result where e: "e = (pid, result)" by (cases e)
  from Cons.prems have le: "\<not> link_success_rate (link_validation_summary result) > score"
    and rest: "\<forall>e\<in>set rs. entry_rate e \<le> score"
    by (auto simp: e entry_rate_def)
  show ?case
    unfolding e using le Cons.IH [OF rest] by (simp add: Let_def)
qed

lemma summary_loop_first_best:
  assumes "\<exists>e\<in>set rs. score < entry_rate e"
  shows "\<exists>i<length rs.
      best_prompt_for_links (summary_loop rs score t om)
        = Some (pv_name (ev_prompt_version (snd (rs ! i))))
    \<and> score < entry_rate (rs ! i)
    \<and> (\<forall>j<length rs. entry_rate (rs ! j) \<le> entry_rate (rs ! i))
    \<and> (\<forall>j<i. entry_rate (rs ! j) < entry_rate (rs ! i))"
  using assms
proof (induction rs arbitrary: score t om)
  case Nil
  then show ?case by simp
next
  case (Cons e rs)
  obtain pid result where e: "e = (pid, result)" by (cases e)
  let ?rate = "link_success_rate (link_validation_summary result)"
  have rate: "entry_rate e = ?rate" by (simp add: e entry_rate_def)
  show ?case
  proof (cases "score < ?rate")
    case better: True
    define om1 where "om1 = om\<lparr>best_prompt_for_links := Some (pv_name (ev_prompt_version result))\<rparr>"
    obtain t' om2 where step: "summary_loop (e # rs) score t om = summary_loop rs ?rate t' om2"
      and om2: "best_prompt_for_links om2 = Some (pv_name (ev_prompt_version result))"
      using better by (simp add: e Let_def)
    show ?thesis
    proof (cases "\<exists>e'\<in>set rs. ?rate < entry_rate e'")
      case True
      from Cons.IH [OF True, of t' om2] obtain i where i: "i < length rs"
        and b: "best_prompt_for_links (summary_loop rs ?rate t' om2)
          = Some (pv_name (ev_prompt_version (snd (rs ! i))))"
        and gt: "?rate < entry_rate (rs ! i)"
        and mx: "\<forall>j<length rs. entry_rate (rs ! j) \<le> entry_rate (rs ! i)"
        and fst: "\<forall>j<i. entry_rate (rs ! j) < entry_rate (rs ! i)"
        by blast
      have "Suc i < length (e # rs)" using i by simp
      moreover have "best_prompt_for_links (summary_loop (e # rs) score t om)
          = Some (pv_name (ev_prompt_version (snd ((e # rs) ! Suc i))))"
        using b step by simp
      moreover have "score < entry_rate ((e # rs) ! Suc i)"
        using better gt by simp
      moreover have "\<forall>j<length (e # rs). entry_rate ((e # rs) ! j) \<le> entry_rate ((e # rs) ! Suc i)"
        using mx gt rate by (auto simp: nth_Cons split: nat.splits)
      moreover have "\<forall>j<Suc i. entry_rate ((e # rs) ! j) < entry_rate ((e # rs) ! Suc i)"
        using fst gt rate by (auto simp: nth_Cons split: nat.splits)
      ultimately show ?thesis by blast
    next
      case False
      then have le: "\<forall>e'\<in>set rs. entry_rate e' \<le> ?rate" by auto
      have "best_prompt_for_links (summary_loop (e # rs) score t om)
          = Some (pv_name (ev_prompt_version (snd ((e # rs) ! 0))))"
        using summary_loop_keeps_best [OF le, of t' om2] step om2 by (simp add: e)
      moreover have "score < entry_rate ((e # rs) ! 0)"
        using better rate by simp
      moreover have "\<forall>j<length (e # rs). entry_rate ((e # rs) ! j) \<le> entry_rate ((e # rs) ! 0)"
        using le rate by (auto simp: nth_Cons split: nat.splits)
      ultimately show ?thesis by (intro exI [of _ 0]) simp
    qed
  next
    case worse: False
    obtain t' om2 where step: "summary_loop (e # rs) score t om = summary_loop rs score t' om2"
      using worse by (simp add: e Let_def)
    from Cons.prems worse rate have "\<exists>e'\<in>set rs. score < entry_rate e'" by auto
    from Cons.IH [OF this, of t' om2] obtain i where i: "i < length rs"
      and b: "best_prompt_for_links (summary_loop rs score t' om2)
        = Some (pv_name (ev_prompt_version (snd (rs ! i))))"
      and gt: "score < entry_rate (rs ! i)"
      and mx: "\<forall>j<length rs. entry_rate (rs ! j) \<le> entry_rate (rs ! i)"
      and fst: "\<forall>j<i. entry_rate (rs ! j) < entry_rate (rs ! i)"
      by blast
    have "Suc i < length (e # rs)" using i by simp
    moreover have "best_prompt_for_links (summary_loop (e # rs) score t om)
        = Some (pv_name (ev_prompt_version (snd ((e # rs) ! Suc i))))"
      using b step by simp
    moreover have "score < entry_rate ((e # rs) ! Suc i)"
      using gt by simp
    moreover have "\<forall>j<length (e # rs). entry_rate ((e # rs) ! j) \<le> entry_rate ((e # rs) ! Suc i)"
      using mx gt rate worse by (auto simp: nth_Cons split: nat.splits)
    moreover have "\<forall>j<Suc i. entry_rate ((e # rs) ! j) < entry_rate ((e # rs) ! Suc i)"
      using fst gt rate worse by (auto simp: nth_Cons split: nat.splits)
    ultimately show ?thesis by blast
  qed
qed

text \<open>
  Claim C7. For a session with stored results, the summary names as best for links the
  entry at the first position whose rate is the highest: no entry has a higher rate and
  every earlier entry has a strictly lower one. The rate of an entry is 100 when its
  total link count is 0 and (valid + warning) / total * 100 otherwise. (Rates are exact
  quotients here; see \<open>link_success_rate\<close>.)
\<close>

theorem best_for_links_first_maximum:
  assumes "current_session ev = Some session" and "results session \<noteq> []"
  shows "\<exists>om i. generate_comparison_summary ev = Some om
      \<and> i < length (results session)
      \<and> best_prompt_for_links om
          = Some (pv_name (ev_prompt_version (snd (results session ! i))))
      \<and> (\<forall>j<length (results session).
            entry_rate (results session ! j) \<le> entry_rate (results session ! i))
      \<and> (\<forall>j<i. entry_rate (results session ! j) < entry_rate (results session ! i))
      \<and> (\<forall>e. entry_rate e =
            (if total_links (link_validation_summary (snd e)) = 0 then 100
             else of_nat (valid_links (link_validation_summary (snd e))
                          + warning_links (link_validation_summary (snd e)))
                  / of_nat (total_links (link_validation_summary (snd e))) * 100))"
proof -
  let ?rs = "results session"
  let ?om = "\<lparr>total_prompts = length ?rs,
      total_questions_per_prompt = length (test_questions session),
      best_prompt_for_links = None, best_prompt_for_response_time = None\<rparr>"
  from assms(2) obtain e where "e \<in> set ?rs" by (cases ?rs) auto
  moreover have "- 1 < entry_rate e"
    using link_success_rate_nonneg [of "link_validation_summary (snd e)"]
    by (simp add: entry_rate_def)
  ultimately have "\<exists>e\<in>set ?rs. - 1 < entry_rate e" by blast
  from summary_loop_first_best [OF this, of None ?om] obtain i where "i < length ?rs"
    and "best_prompt_for_links (summary_loop ?rs (- 1) None ?om)
        = Some (pv_name (ev_prompt_version (snd (?rs ! i))))"
    and "\<forall>j<length ?rs. entry_rate (?rs ! j) \<le> entry_rate (?rs ! i)"
    and "\<forall>j<i. entry_rate (?rs ! j) < entry_rate (?rs ! i)"
    by blast
  moreover have "generate_comparison_summary ev = Some (summary_loop ?rs (- 1) None ?om)"
    using assms by (simp add: generate_comparison_summary_def)
  moreover have "\<forall>e. entry_rate e =
            (if total_links (link_validation_summary (snd e)) = 0 then 100
             else of_nat (valid_links (link_validation_summary (snd e))
                          + warning_links (link_validation_summary (snd e)))
                  / of_nat (total_links (link_validation_summary (snd e))) * 100)"
    by (simp add: entry_rate_def link_success_rate_def)
  ultimately show ?thesis by blast
qed

text \<open>
  The theorem of C7 at a session whose first two versions tie at 100 per cent, the first
  of them with no links at all: the first one is named.
\<close>

theorem best_for_links_first_maximum_witness:
  "current_session evaluator_tie = Some session_tie \<and> results session_tie \<noteq> []
   \<and> entry_rate (results session_tie ! 0) = 100
   \<and> entry_rate (results session_tie ! 1) = 100
   \<and> entry_rate (results session_tie ! 2) = 50
   \<and> (\<exists>om. generate_comparison_summary evaluator_tie = Some om
         \<and> best_prompt_for_links om = Some ''Baseline'')"
proof -
  have h1: "current_session evaluator_tie = Some session_tie"
    by (simp add: evaluator_tie_def)
  have h2: "results session_tie \<noteq> []"
    by (simp add: session_tie_def)
  have len: "length (results session_tie) = 3"
    by (simp add: session_tie_def)
  have r: "entry_rate (results session_tie ! 0) = 100"
    "entry_rate (results session_tie ! 1) = 100"
    "entry_rate (results session_tie ! 2) = 50"
    by (simp_all add: session_tie_def entry_rate_def link_success_rate_def sample_evaluation_def)
  have name0: "pv_name (ev_prompt_version (snd (results session_tie ! 0))) = ''Baseline''"
    by (simp add: session_tie_def sample_evaluation_def prompt_v1_def)
  from best_for_links_first_maximum [OF h1 h2] obtain om i
    where om: "generate_comparison_summary evaluator_tie = Some om"
      and i: "i < length (results session_tie)"
      and b: "best_prompt_for_links om
          = Some (pv_name (ev_prompt_version (snd (results session_tie ! i))))"
      and mx: "\<forall>j<length (results session_tie).
            entry_rate (results session_tie ! j) \<le> entry_rate (results session_tie ! i)"
      and first: "\<forall>j<i. entry_rate (results session_tie ! j) < entry_rate (results session_tie ! i)"
    by blast
  from i len have "i = 0 \<or> i = 1 \<or> i = 2" by auto
  then have "i = 0"
  proof (elim disjE)
    assume "i = 0"
    then show ?thesis .
  next
    assume "i = 1"
    with first have "entry_rate (results session_tie ! 0) < entry_rate (results session_tie ! 1)"
      by simp
    with r show ?thesis by simp
  next
    assume "i = 2"
    with first have "entry_rate (results session_tie ! 0) < entry_rate (results session_tie ! 2)"
      by simp
    with r show ?thesis by simp
  qed
  with b name0 have "best_prompt_for_links om = Some ''Baseline''" by simp
  with h1 h2 r om show ?thesis by blast
qed

section \<open>Properties of the orchestrator\<close>

lemma gate_quit:
  "\<forall>l\<in>set junk. \<not> is_directive l \<Longrightarrow> says_quit line \<Longrightarrow>
   wait_for_prompt_change (junk @ line # rest) = (SystemExit 0, rest)"
proof (induction junk)
  case Nil
  then show ?case by (simp add: says_quit_def)
next
  case (Cons l junk)
  then show ?case by (simp add: is_directive_def)
qed

lemma gate_consumes_prefix:
  "wait_for_prompt_change inputs = (g, rest) \<Longrightarrow> \<exists>consumed. inputs = consumed @ rest"
proof (induction inputs)
  case Nil
  then show ?case by simp
next
  case (Cons line more)
  show ?case
  proof (cases "is_directive line")
    case True
    with Cons.prems have "rest = more"
      by (auto simp: is_directive_def Let_def split: if_splits)
    then show ?thesis by (intro exI [of _ "[line]"]) simp
  next
    case False
    with Cons.prems have "wait_for_prompt_change more = (g, rest)"
      by (simp add: is_directive_def Let_def)
    from Cons.IH [OF this] obtain consumed where "more = consumed @ rest" ..
    then show ?thesis by (intro exI [of _ "line # consumed"]) simp
  qed
qed

lemma gate_exit:
  "wait_for_prompt_change inputs = (SystemExit c, rest) \<Longrightarrow>
   c = 0 \<and> (\<exists>junk line. inputs = junk @ line # rest \<and> (\<forall>l\<in>set junk. \<not> is_directive l)
                \<and> says_quit line)"
proof (induction inputs)
  case Nil
  then show ?case by simp
next
  case (Cons first more)
  show ?case
  proof (cases "is_directive first")
    case True
    with Cons.prems have "c = 0" and "rest = more" and "says_quit first"
      by (auto simp: is_directive_def says_quit_def Let_def split: if_splits)
    then show ?thesis by (intro conjI exI [of _ "[]"] exI [of _ first]) simp_all
  next
    case False
    with Cons.prems have "wait_for_prompt_change more = (SystemExit c, rest)"
      by (simp add: is_directive_def Let_def)
    from Cons.IH [OF this] obtain junk line where "c = 0" and "more = junk @ line # rest"
      and "\<forall>l\<in>set junk. \<not> is_directive l" and "says_quit line"
      by blast
    with False show ?thesis
      by (intro conjI exI [of _ "first # junk"] exI [of _ line]) simp_all
  qed
qed

declare wait_for_prompt_change.simps [simp del]

lemma versions_loop_gate_exit:
  "wait_for_prompt_change inputs = (SystemExit c, rest) \<Longrightarrow>
   versions_loop ow qs i (pv # vs) session all_results inputs = (Exited c, session, rest)"
  by simp

lemma versions_loop_append:
  "versions_loop ow qs i (xs @ ys) session all_results inputs =
     (case versions_loop ow qs i xs session all_results inputs of
        (Returned all_results', session', inputs') \<Rightarrow>
          versions_loop ow qs (i + length xs) ys session' all_results' inputs'
      | (Raised e, session', inputs') \<Rightarrow> (Raised e, session', inputs')
      | (Exited c, session', inputs') \<Rightarrow> (Exited c, session', inputs'))"
proof (induction xs arbitrary: i session all_results inputs)
  case Nil
  then show ?case by simp
next
  case (Cons pv xs)
  obtain g inputs1 where gate: "wait_for_prompt_change inputs = (g, inputs1)"
    by (cases "wait_for_prompt_change inputs")
  show ?case
  proof (cases g)
    case (Return should_continue)
    show ?thesis
    proof (cases "run_single_prompt_evaluation (runs ow i) (s_name session) pv qs")
      case (Inl e)
      with gate Return Cons.IH show ?thesis
        by (auto simp: Let_def split: prod.splits outcome.splits)
    next
      case (Inr r)
      with gate Return Cons.IH show ?thesis
        by (cases r) (auto simp: Let_def split: prod.splits outcome.splits)
    qed
  next
    case (SystemExit c)
    with gate show ?thesis by simp
  next
    case EOFError
    with gate show ?thesis by simp
  qed
qed

lemma versions_loop_session:
  "versions_loop ow qs i vs session all_results inputs = (out, session', inputs') \<Longrightarrow>
   \<forall>e. out \<noteq> Raised e \<Longrightarrow>
   results session' = results session
   \<and> prompt_versions session' = prompt_versions session @ passed_gate vs inputs"
proof (induction vs arbitrary: i session all_results inputs)
  case Nil
  then show ?case by auto
next
  case (Cons pv rest)
  obtain g inputs1 where gate: "wait_for_prompt_change inputs = (g, inputs1)"
    by (cases "wait_for_prompt_change inputs")
  show ?case
  proof (cases g)
    case (SystemExit c)
    with Cons.prems gate show ?thesis by auto
  next
    case EOFError
    with Cons.prems gate show ?thesis by auto
  next
    case (Return should_continue)
    show ?thesis
    proof (cases should_continue)
      case False
      with Cons.prems gate Return
      have "versions_loop ow qs (Suc i) rest session all_results inputs1
          = (out, session', inputs')" by simp
      from Cons.IH [OF this Cons.prems(2)] gate Return False show ?thesis by simp
    next
      case True
      let ?s = "session\<lparr>prompt_versions := prompt_versions session @ [pv]\<rparr>"
      show ?thesis
      proof (cases "run_single_prompt_evaluation (runs ow i) (s_name session) pv qs")
        case (Inl e)
        with Cons.prems gate Return True show ?thesis by (auto simp: Let_def)
      next
        case (Inr r)
        show ?thesis
        proof (cases r)
          case None
          with Cons.prems gate Return True Inr
          have "versions_loop ow qs (Suc i) rest ?s all_results inputs1
              = (out, session', inputs')" by (simp add: Let_def)
          from Cons.IH [OF this Cons.prems(2)] gate Return True show ?thesis by simp
        next
          case (Some result)
          with Cons.prems gate Return True Inr
          have "versions_loop ow qs (Suc i) rest ?s (dict_set (pv_id pv) result all_results)
              inputs1 = (out, session', inputs')" by (simp add: Let_def)
          from Cons.IH [OF this Cons.prems(2)] gate Return True show ?thesis by simp
        qed
      qed
    qed
  qed
qed

lemma versions_loop_exit:
  "versions_loop ow qs i vs session all_results inputs = (Exited c, session', inputs') \<Longrightarrow>
   c = 0 \<and> (\<exists>consumed. inputs = consumed @ inputs' \<and> consumed \<noteq> []
               \<and> says_quit (last consumed))"
proof (induction vs arbitrary: i session all_results inputs)
  case Nil
  then show ?case by simp
next
  case (Cons pv rest)
  obtain g inputs1 where gate: "wait_for_prompt_change inputs = (g, inputs1)"
    by (cases "wait_for_prompt_change inputs")
  from gate_consumes_prefix [OF gate] obtain c1 where c1: "inputs = c1 @ inputs1" ..
  have later: ?case
    if rec: "versions_loop ow qs (Suc i) rest s ar inputs1 = (Exited c, session', inputs')"
    for s ar
  proof -
    from Cons.IH [OF rec] obtain consumed where "c = 0"
      and co: "inputs1 = consumed @ inputs'" "consumed \<noteq> []" "says_quit (last consumed)"
      by blast
    have "inputs = (c1 @ consumed) @ inputs'" "c1 @ consumed \<noteq> []"
      "says_quit (last (c1 @ consumed))"
      using c1 co by simp_all
    with \<open>c = 0\<close> show ?thesis by blast
  qed
  show ?case
  proof (cases g)
    case (SystemExit c')
    with Cons.prems gate have eq: "c' = c" "inputs' = inputs1" by simp_all
    from gate_exit [of inputs c inputs1] gate SystemExit eq obtain junk line
      where "c = 0" and "inputs = junk @ line # inputs'" and "says_quit line"
      by auto
    then have "inputs = (junk @ [line]) @ inputs'" "junk @ [line] \<noteq> []"
      "says_quit (last (junk @ [line]))" by simp_all
    with \<open>c = 0\<close> show ?thesis by blast
  next
    case EOFError
    with Cons.prems gate show ?thesis by simp
  next
    case (Return should_continue)
    show ?thesis
    proof (cases should_continue)
      case False
      with Cons.prems gate Return
      have "versions_loop ow qs (Suc i) rest session all_results inputs1
          = (Exited c, session', inputs')" by simp
      then show ?thesis by (rule later)
    next
      case True
      let ?s = "session\<lparr>prompt_versions := prompt_versions session @ [pv]\<rparr>"
      show ?thesis
      proof (cases "run_single_prompt_evaluation (runs ow i) (s_name session) pv qs")
        case (Inl e)
        with Cons.prems gate Return True show ?thesis by (simp add: Let_def)
      next
        case (Inr r)
        show ?thesis
        proof (cases r)
          case None
          with Cons.prems gate Return True Inr
          have "versions_loop ow qs (Suc i) rest ?s all_results inputs1
              = (Exited c, session', inputs')" by (simp add: Let_def)
          then show ?thesis by (rule later)
        next
          case (Some result)
          with Cons.prems gate Return True Inr
          have "versions_loop ow qs (Suc i) rest ?s (dict_set (pv_id pv) result all_results)
              inputs1 = (Exited c, session', inputs')" by (simp add: Let_def)
          then show ?thesis by (rule later)
        qed
      qed
    qed
  qed
qed

text \<open>
  Claim C1, as the code has it, for an evaluator with a session and an API that
  answers. If the loop has come through the versions \<open>before\<close> and the operator's next
  directive at the gate of the following version is \<open>quit\<close>, the run exits with code
  0 right after that line: no later version is evaluated and no later line is read.
  The session then has the results it had before the run, whatever evaluations the loop
  had recorded in its local dictionary \<open>recorded\<close>, and its list of prompt versions
  has grown by exactly the versions that passed the gate. Conversely, a run that exits
  does so with code 0 after a line that says \<open>quit\<close>, with the session's results and
  \<open>results_by_prompt\<close> as they were before the run.
\<close>

theorem abort_exits_and_leaves_results:
  assumes "current_session ev = Some session" and "connection_ok ow"
  shows "(\<forall>before pv rest recorded s1 junk line inputs2.
            versions = before @ pv # rest
          \<and> versions_loop ow (questions_of session questions) 1 before session [] inputs
              = (Returned recorded, s1, junk @ line # inputs2)
          \<and> (\<forall>l\<in>set junk. \<not> is_directive l) \<and> says_quit line
          \<longrightarrow> run_multi_prompt_evaluation ow ev versions questions inputs
                = (Exited 0, ev\<lparr>current_session := Some s1\<rparr>, inputs2)
            \<and> results s1 = results session
            \<and> prompt_versions s1 = prompt_versions session @ passed_gate before inputs)
       \<and> (\<forall>c ev' inputs'.
            run_multi_prompt_evaluation ow ev versions questions inputs = (Exited c, ev', inputs')
          \<longrightarrow> c = 0
            \<and> results_by_prompt ev' = results_by_prompt ev
            \<and> (\<exists>session'. current_session ev' = Some session'
                  \<and> results session' = results session
                  \<and> prompt_versions session'
                      = prompt_versions session @ passed_gate versions inputs)
            \<and> (\<exists>consumed. inputs = consumed @ inputs' \<and> consumed \<noteq> []
                  \<and> says_quit (last consumed)))"
proof (intro conjI allI impI)
  let ?qs = "questions_of session questions"
  have run: "run_multi_prompt_evaluation ow ev versions questions inputs
      = (case versions_loop ow ?qs 1 versions session [] inputs of
           (Returned all_results, session', inputs') \<Rightarrow>
             (Returned (Some all_results),
              ev\<lparr>current_session := Some (session'\<lparr>results := all_results\<rparr>),
                 results_by_prompt := all_results\<rparr>, inputs')
         | (Raised e, session', inputs') \<Rightarrow>
             (Raised e, ev\<lparr>current_session := Some session'\<rparr>, inputs')
         | (Exited c, session', inputs') \<Rightarrow>
             (Exited c, ev\<lparr>current_session := Some session'\<rparr>, inputs'))"
    using assms by (simp add: run_multi_prompt_evaluation_def questions_of_def)
  {
    fix before pv rest recorded s1 junk line inputs2
    assume h: "versions = before @ pv # rest
          \<and> versions_loop ow ?qs 1 before session [] inputs
              = (Returned recorded, s1, junk @ line # inputs2)
          \<and> (\<forall>l\<in>set junk. \<not> is_directive l) \<and> says_quit line"
    then have gate: "wait_for_prompt_change (junk @ line # inputs2) = (SystemExit 0, inputs2)"
      by (simp add: gate_quit)
    have "versions_loop ow ?qs 1 versions session [] inputs = (Exited 0, s1, inputs2)"
      using h versions_loop_gate_exit [OF gate]
      by (simp add: versions_loop_append)
    then show "run_multi_prompt_evaluation ow ev versions questions inputs
        = (Exited 0, ev\<lparr>current_session := Some s1\<rparr>, inputs2)"
      by (simp add: run)
    from h have "versions_loop ow ?qs 1 before session [] inputs
        = (Returned recorded, s1, junk @ line # inputs2)" by simp
    from versions_loop_session [OF this]
    show "results s1 = results session"
      and "prompt_versions s1 = prompt_versions session @ passed_gate before inputs"
      by simp_all
  }
  fix c ev' inputs'
  assume ex: "run_multi_prompt_evaluation ow ev versions questions inputs = (Exited c, ev', inputs')"
  obtain out s1 in1 where loop: "versions_loop ow ?qs 1 versions session [] inputs = (out, s1, in1)"
    by (cases "versions_loop ow ?qs 1 versions session [] inputs")
  with ex have out: "out = Exited c" and ev': "ev' = ev\<lparr>current_session := Some s1\<rparr>"
    and in1: "in1 = inputs'"
    by (auto simp: run split: outcome.splits)
  note loop' = loop [unfolded out in1]
  from versions_loop_exit [OF loop'] show "c = 0"
    and "\<exists>consumed. inputs = consumed @ inputs' \<and> consumed \<noteq> [] \<and> says_quit (last consumed)"
    by simp_all
  from ev' show "results_by_prompt ev' = results_by_prompt ev" by simp
  from versions_loop_session [OF loop'] ev'
  show "\<exists>session'. current_session ev' = Some session'
      \<and> results session' = results session
      \<and> prompt_versions session' = prompt_versions session @ passed_gate versions inputs"
    by simp
qed

text \<open>
  The theorem of C1 at a run of two versions where the operator proceeds with the first
  and, after a line that is no directive, aborts at the gate of the second.
\<close>

theorem abort_exits_and_leaves_results_witness:
  "current_session evaluator_demo = Some session_demo \<and> connection_ok world_demo
   \<and> run_multi_prompt_evaluation world_demo evaluator_demo [prompt_v1, prompt_v2] None
        ['''', ''hm'', '' Quit '', ''later'']
       = (Exited 0,
          evaluator_demo\<lparr>current_session :=
            Some (session_demo\<lparr>prompt_versions := [prompt_v1]\<rparr>)\<rparr>,
          [''later''])
   \<and> passed_gate [prompt_v1, prompt_v2] ['''', ''hm'', '' Quit '', ''later''] = [prompt_v1]
   \<and> (\<exists>session'. current_session (evaluator_demo\<lparr>current_session :=
            Some (session_demo\<lparr>prompt_versions := [prompt_v1]\<rparr>)\<rparr>) = Some session'
         \<and> results session' = results session_demo
         \<and> prompt_versions session' = prompt_versions session_demo
              @ passed_gate [prompt_v1, prompt_v2] ['''', ''hm'', '' Quit '', ''later''])
   \<and> (\<exists>consumed. ['''', ''hm'', '' Quit '', ''later''] = consumed @ [''later'']
         \<and> consumed \<noteq> [] \<and> says_quit (last consumed))"
proof -
  let ?inputs = "['''', ''hm'', '' Quit '', ''later'']"
  let ?s1 = "session_demo\<lparr>prompt_versions := [prompt_v1]\<rparr>"
  let ?loop = "versions_loop world_demo (questions_of session_demo None) 1 [prompt_v1]
      session_demo [] ?inputs"
  have h1: "current_session evaluator_demo = Some session_demo"
    by (simp add: evaluator_demo_def)
  have h2: "connection_ok world_demo"
    by (simp add: world_demo_def)
  note t = abort_exits_and_leaves_results [OF h1 h2,
      where versions = "[prompt_v1, prompt_v2]" and questions = None and inputs = ?inputs]
  have "case fst ?loop of Returned recorded \<Rightarrow> True | Raised e \<Rightarrow> False | Exited c \<Rightarrow> False"
    by code_simp
  then obtain recorded where r: "fst ?loop = Returned recorded"
    by (cases "fst ?loop") simp_all
  have "snd ?loop = (?s1, [''hm''] @ '' Quit '' # [''later''])"
    by code_simp
  with r have loop: "?loop = (Returned recorded, ?s1, [''hm''] @ '' Quit '' # [''later''])"
    by (simp add: prod_eq_iff)
  have junk: "\<forall>l\<in>set [''hm'']. \<not> is_directive l" and quit: "says_quit '' Quit ''"
    by code_simp+
  have split: "[prompt_v1, prompt_v2] = [prompt_v1] @ prompt_v2 # []"
    by simp
  from t have fwd: "\<forall>before pv rest recorded s1 junk line inputs2.
            [prompt_v1, prompt_v2] = before @ pv # rest
          \<and> versions_loop world_demo (questions_of session_demo None) 1 before session_demo []
                ?inputs
              = (Returned recorded, s1, junk @ line # inputs2)
          \<and> (\<forall>l\<in>set junk. \<not> is_directive l) \<and> says_quit line
          \<longrightarrow> run_multi_prompt_evaluation world_demo evaluator_demo [prompt_v1, prompt_v2] None
                  ?inputs
                = (Exited 0, evaluator_demo\<lparr>current_session := Some s1\<rparr>, inputs2)
            \<and> results s1 = results session_demo
            \<and> prompt_versions s1 = prompt_versions session_demo @ passed_gate before ?inputs"
    by (rule conjunct1)
  from fwd [rule_format, of "[prompt_v1]" prompt_v2 "[]" recorded ?s1 "[''hm'']" "'' Quit ''"
      "[''later'']"] split loop junk quit
  have run: "run_multi_prompt_evaluation world_demo evaluator_demo [prompt_v1, prompt_v2] None
      ?inputs = (Exited 0, evaluator_demo\<lparr>current_session := Some ?s1\<rparr>, [''later''])"
    by blast
  from t have bwd: "\<forall>c ev' inputs'.
      run_multi_prompt_evaluation world_demo evaluator_demo [prompt_v1, prompt_v2] None ?inputs
        = (Exited c, ev', inputs')
      \<longrightarrow> c = 0
        \<and> results_by_prompt ev' = results_by_prompt evaluator_demo
        \<and> (\<exists>session'. current_session ev' = Some session'
              \<and> results session' = results session_demo
              \<and> prompt_versions session'
                  = prompt_versions session_demo @ passed_gate [prompt_v1, prompt_v2] ?inputs)
        \<and> (\<exists>consumed. ?inputs = consumed @ inputs' \<and> consumed \<noteq> []
              \<and> says_quit (last consumed))"
    by (rule conjunct2)
  note conv = bwd [rule_format, OF run]
  have passed: "passed_gate [prompt_v1, prompt_v2] ?inputs = [prompt_v1]"
    by code_simp
  from h1 h2 run passed conv show ?thesis by blast
qed

text \<open>
  Claim C1 as stated fails. The first version passes the gate and is evaluated; when the
  operator then aborts at the second gate, the session's results are empty, although its
  list of prompt versions holds the first version. Had the operator skipped the second
  version instead, the session's results would hold the first version's evaluation.
\<close>

theorem abort_loses_recorded_evaluations_counterexample:
  "fst (run_multi_prompt_evaluation world_demo evaluator_demo [prompt_v1, prompt_v2] None
          ['''', ''quit'']) = Exited 0
   \<and> map_option results (current_session (fst (snd
        (run_multi_prompt_evaluation world_demo evaluator_demo [prompt_v1, prompt_v2] None
          ['''', ''quit''])))) = Some []
   \<and> map_option prompt_versions (current_session (fst (snd
        (run_multi_prompt_evaluation world_demo evaluator_demo [prompt_v1, prompt_v2] None
          ['''', ''quit''])))) = Some [prompt_v1]
   \<and> map_option (map fst \<circ> results) (current_session (fst (snd
        (run_multi_prompt_evaluation world_demo evaluator_demo [prompt_v1, prompt_v2] None
          ['''', ''skip''])))) = Some [''prompt_v1'']"
  by code_simp

end
